theory Spec2Isabelle
  imports Complex_Main
begin

section \<open>JavaScript numbers\<close>

text \<open>
  A JavaScript number is a double: a finite value, modelled by the real number it
  stands for, or one of \<open>+Infinity\<close>, \<open>-Infinity\<close> and \<open>NaN\<close>. Zero carries no sign.
\<close>

datatype jsnum = NaN | NegInf | Fin real | PosInf

text \<open>
  What the platform computes is a parameter of the model: \<open>fl x\<close> is the double that the
  operations \<open>+\<close>, \<open>-\<close>, \<open>*\<close> and \<open>/\<close> return when their exact result is \<open>x\<close> (the rounded
  value, or an infinity on overflow); \<open>math_hypot\<close> and \<open>math_pow\<close> are \<open>Math.hypot\<close> and
  \<open>Math.pow\<close> on finite arguments, which the language leaves to the implementation;
  \<open>math_PI\<close> is \<open>Math.PI\<close>.
\<close>

record arith =
  fl :: "real \<Rightarrow> jsnum"
  math_hypot :: "real list \<Rightarrow> jsnum"
  math_pow :: "real \<Rightarrow> real \<Rightarrow> jsnum"
  math_PI :: real

text \<open>The comparison \<open>a > b\<close>; it is false when either side is \<open>NaN\<close>.\<close>

fun js_gt :: "jsnum \<Rightarrow> jsnum \<Rightarrow> bool" where
  "js_gt NaN b = False"
| "js_gt a NaN = False"
| "js_gt NegInf b = False"
| "js_gt (Fin x) NegInf = True"
| "js_gt (Fin x) (Fin y) = (y < x)"
| "js_gt (Fin x) PosInf = False"
| "js_gt PosInf PosInf = False"
| "js_gt PosInf b = True"

text \<open>\<open>Math.min\<close> of two numbers and \<open>Math.abs\<close>; both are exact.\<close>

definition js_min :: "jsnum \<Rightarrow> jsnum \<Rightarrow> jsnum" where
  "js_min a b = (if a = NaN \<or> b = NaN then NaN else if js_gt a b then b else a)"

fun js_abs :: "jsnum \<Rightarrow> jsnum" where
  "js_abs NaN = NaN"
| "js_abs NegInf = PosInf"
| "js_abs (Fin x) = Fin \<bar>x\<bar>"
| "js_abs PosInf = PosInf"

fun js_add :: "arith \<Rightarrow> jsnum \<Rightarrow> jsnum \<Rightarrow> jsnum" where
  "js_add ar NaN b = NaN"
| "js_add ar a NaN = NaN"
| "js_add ar (Fin x) (Fin y) = fl ar (x + y)"
| "js_add ar (Fin x) PosInf = PosInf"
| "js_add ar (Fin x) NegInf = NegInf"
| "js_add ar PosInf (Fin y) = PosInf"
| "js_add ar NegInf (Fin y) = NegInf"
| "js_add ar PosInf PosInf = PosInf"
| "js_add ar PosInf NegInf = NaN"
| "js_add ar NegInf PosInf = NaN"
| "js_add ar NegInf NegInf = NegInf"

fun js_sub :: "arith \<Rightarrow> jsnum \<Rightarrow> jsnum \<Rightarrow> jsnum" where
  "js_sub ar NaN b = NaN"
| "js_sub ar a NaN = NaN"
| "js_sub ar (Fin x) (Fin y) = fl ar (x - y)"
| "js_sub ar (Fin x) PosInf = NegInf"
| "js_sub ar (Fin x) NegInf = PosInf"
| "js_sub ar PosInf (Fin y) = PosInf"
| "js_sub ar NegInf (Fin y) = NegInf"
| "js_sub ar PosInf PosInf = NaN"
| "js_sub ar PosInf NegInf = PosInf"
| "js_sub ar NegInf PosInf = NegInf"
| "js_sub ar NegInf NegInf = NaN"

fun js_mul :: "arith \<Rightarrow> jsnum \<Rightarrow> jsnum \<Rightarrow> jsnum" where
  "js_mul ar NaN b = NaN"
| "js_mul ar a NaN = NaN"
| "js_mul ar (Fin x) (Fin y) = fl ar (x * y)"
| "js_mul ar (Fin x) PosInf = (if x = 0 then NaN else if 0 < x then PosInf else NegInf)"
| "js_mul ar (Fin x) NegInf = (if x = 0 then NaN else if 0 < x then NegInf else PosInf)"
| "js_mul ar PosInf (Fin y) = (if y = 0 then NaN else if 0 < y then PosInf else NegInf)"
| "js_mul ar NegInf (Fin y) = (if y = 0 then NaN else if 0 < y then NegInf else PosInf)"
| "js_mul ar PosInf PosInf = PosInf"
| "js_mul ar PosInf NegInf = NegInf"
| "js_mul ar NegInf PosInf = NegInf"
| "js_mul ar NegInf NegInf = PosInf"

text \<open>Division; a zero divisor is \<open>+0\<close>.\<close>

fun js_div :: "arith \<Rightarrow> jsnum \<Rightarrow> jsnum \<Rightarrow> jsnum" where
  "js_div ar NaN b = NaN"
| "js_div ar a NaN = NaN"
| "js_div ar (Fin x) (Fin y) =
     (if y = 0 then (if x = 0 then NaN else if 0 < x then PosInf else NegInf)
      else fl ar (x / y))"
| "js_div ar (Fin x) PosInf = Fin 0"
| "js_div ar (Fin x) NegInf = Fin 0"
| "js_div ar PosInf (Fin y) = (if 0 \<le> y then PosInf else NegInf)"
| "js_div ar NegInf (Fin y) = (if 0 \<le> y then NegInf else PosInf)"
| "js_div ar PosInf PosInf = NaN"
| "js_div ar PosInf NegInf = NaN"
| "js_div ar NegInf PosInf = NaN"
| "js_div ar NegInf NegInf = NaN"

definition odd_integer :: "real \<Rightarrow> bool" where
  "odd_integer y = (y = of_int \<lfloor>y\<rfloor> \<and> odd \<lfloor>y\<rfloor>)"

text \<open>
  \<open>Math.pow\<close>, following the case table of the language standard; on a finite non-zero
  base and a finite non-zero exponent it is \<open>NaN\<close> for a negative base with a fractional
  exponent and the platform's value otherwise. A zero base with a negative odd integer
  exponent gives \<open>+Infinity\<close> or \<open>-Infinity\<close> by the sign of the zero, which the model
  does not carry: there too the value is the platform's.
\<close>

fun js_pow :: "arith \<Rightarrow> jsnum \<Rightarrow> jsnum \<Rightarrow> jsnum" where
  "js_pow ar b NaN = NaN"
| "js_pow ar b (Fin y) =
     (if y = 0 then Fin 1
      else case b of
        NaN \<Rightarrow> NaN
      | PosInf \<Rightarrow> if 0 < y then PosInf else Fin 0
      | NegInf \<Rightarrow> if 0 < y then (if odd_integer y then NegInf else PosInf) else Fin 0
      | Fin x \<Rightarrow>
          if x = 0 then
            (if 0 < y then Fin 0 else if odd_integer y then math_pow ar 0 y else PosInf)
          else if 0 < x \<or> y = of_int \<lfloor>y\<rfloor> then math_pow ar x y
          else NaN)"
| "js_pow ar b PosInf =
     (case b of
        NaN \<Rightarrow> NaN
      | Fin x \<Rightarrow> if 1 < \<bar>x\<bar> then PosInf else if \<bar>x\<bar> = 1 then NaN else Fin 0
      | NegInf \<Rightarrow> PosInf
      | PosInf \<Rightarrow> PosInf)"
| "js_pow ar b NegInf =
     (case b of
        NaN \<Rightarrow> NaN
      | Fin x \<Rightarrow> if 1 < \<bar>x\<bar> then Fin 0 else if \<bar>x\<bar> = 1 then NaN else PosInf
      | NegInf \<Rightarrow> Fin 0
      | PosInf \<Rightarrow> Fin 0)"

fun fin :: "jsnum \<Rightarrow> real" where
  "fin (Fin x) = x"
| "fin a = 0"

text \<open>
  \<open>Math.hypot\<close>: an infinite argument wins over \<open>NaN\<close>; no argument gives 0; on finite
  arguments the platform's value.
\<close>

definition js_hypot :: "arith \<Rightarrow> jsnum list \<Rightarrow> jsnum" where
  "js_hypot ar xs =
     (if PosInf \<in> set xs \<or> NegInf \<in> set xs then PosInf
      else if NaN \<in> set xs then NaN
      else if xs = [] then Fin 0
      else math_hypot ar (map fin xs))"

subsection \<open>Two arithmetics\<close>

text \<open>
  The arithmetic of the real numbers: every operation is exact and nothing overflows.
\<close>

definition exact_arith :: arith where
  "exact_arith =
     \<lparr>fl = Fin,
      math_hypot = (\<lambda>xs. Fin (sqrt (\<Sum>x\<leftarrow>xs. x\<^sup>2))),
      math_pow = (\<lambda>x y. if x = 0 then PosInf
                        else Fin (if 0 < x then x powr y
                                  else (if odd \<lfloor>y\<rfloor> then - 1 else 1) * (\<bar>x\<bar> powr y))),
      math_PI = pi\<rparr>"

text \<open>
  An arithmetic with the range of the doubles: exact while the magnitude of the result is
  below \<open>2\<^sup>1\<^sup>0\<^sup>2\<^sup>4\<close>, an infinity from there on, and \<open>Math.PI\<close> the double nearest to
  \<open>\<pi>\<close>. It agrees with the doubles wherever the exact result is a double or has a
  magnitude of at least \<open>2\<^sup>1\<^sup>0\<^sup>2\<^sup>4\<close>.
\<close>

definition overflow :: "real \<Rightarrow> jsnum" where
  "overflow x = (if 2 ^ 1024 \<le> \<bar>x\<bar> then (if 0 < x then PosInf else NegInf) else Fin x)"

definition ranged_arith :: arith where
  "ranged_arith =
     \<lparr>fl = overflow,
      math_hypot = (\<lambda>xs. overflow (sqrt (\<Sum>x\<leftarrow>xs. x\<^sup>2))),
      math_pow = (\<lambda>x y. if x = 0 then PosInf
                        else overflow (if 0 < x then x powr y
                                       else (if odd \<lfloor>y\<rfloor> then - 1 else 1) * (\<bar>x\<bar> powr y))),
      math_PI = 884279719003555 / 281474976710656\<rparr>"

section \<open>The sampler \<open>Poissimple\<close>\<close>

text \<open>
  A coordinate of a point is a number, or, on the one path where the source adds an
  array to a number, a string: \<open>Text a b\<close> is the string that JavaScript makes of the
  array \<open>[a, b]\<close> followed by \<open>NaN\<close>. In a subtraction a string of this kind counts as
  \<open>NaN\<close>, and so does \<open>undefined\<close>, the value of a read past the end of an array.
\<close>

datatype coord = Num jsnum | Text real real

type_synonym point = "coord list"

fun to_number :: "coord \<Rightarrow> jsnum" where
  "to_number (Num x) = x"
| "to_number (Text a b) = NaN"

definition nth_number :: "point \<Rightarrow> nat \<Rightarrow> jsnum" where
  "nth_number p i = (if i < length p then to_number (p ! i) else NaN)"

text \<open>
  An entry of \<open>this.extent\<close>: the pair \<open>[lower, upper]\<close> of an axis, or, when the
  constructor has wrapped a nested extent once more, an array of pairs. Destructuring
  such an array gives arrays (or \<open>undefined\<close>) for \<open>lower\<close> and \<open>upper\<close>, which count as
  \<open>NaN\<close> in a subtraction.
\<close>

datatype bounds = Bounds real real | Wrapped "(real \<times> real) list"

fun lower_number :: "bounds \<Rightarrow> jsnum" where
  "lower_number (Bounds lower upper) = Fin lower"
| "lower_number (Wrapped bs) = NaN"

fun upper_number :: "bounds \<Rightarrow> jsnum" where
  "upper_number (Bounds lower upper) = Fin upper"
| "upper_number (Wrapped bs) = NaN"

text \<open>
  The exceptions the source can throw. Failures that come from the resource limits of an
  engine (memory, the call stack) are not modelled.
\<close>

datatype error = TypeError | RangeError

text \<open>
  \<open>Array(len)\<close> throws a RangeError unless \<open>len\<close> is an integer from 0 to \<open>2\<^sup>3\<^sup>2 - 1\<close>.
\<close>

definition array_length :: "int \<Rightarrow> bool" where
  "array_length len = (0 \<le> len \<and> len < 4294967296)"

text \<open>
  The fields of a \<open>Poissimple\<close> object. The random number generator is the sequence of
  the values its successive calls return, with the number of calls made so far. An entry
  of \<open>points\<close> is \<open>None\<close> for JavaScript's \<open>null\<close>. \<open>platform\<close> is not a field of the
  source: it is the arithmetic of the engine the object lives in, carried with the object
  so that every method computes with it; no method changes it.
\<close>

record state =
  n :: int
  dim :: int
  extent :: "bounds list"
  tries :: int
  rng :: "nat \<Rightarrow> real"
  calls :: nat
  repulsiveBoundary :: bool
  volume :: jsnum
  radius :: jsnum
  points :: "point option list"
  platform :: arith

subsection \<open>Radius heuristic\<close>

definition computeExtentVolume :: "state \<Rightarrow> state" where
  "computeExtentVolume s =
     s\<lparr>volume :=
        foldl (\<lambda>volume bounds.
                 js_mul (platform s) volume
                   (js_sub (platform s) (upper_number bounds) (lower_number bounds)))
          (Fin 1) (extent s)\<rparr>"

definition computeLowerDistance :: "state \<Rightarrow> state" where
  "computeLowerDistance s =
     s\<lparr>radius :=
        js_mul (platform s) (js_div (platform s) (Fin (math_PI (platform s))) (Fin 4))
          (js_pow (platform s)
            (js_div (platform s) (volume s) (Fin (of_int (n s))))
            (js_div (platform s) (Fin 1) (Fin (of_int (dim s)))))\<rparr>"

subsection \<open>Candidate sampling\<close>

text \<open>
  \<open>bounds[0] + (bounds[1] - bounds[0]) * u\<close> for the value \<open>u\<close> the generator returned.
  On a wrapped entry the difference is \<open>NaN\<close>, and \<open>+\<close> joins the array \<open>bounds[0]\<close> and
  \<open>NaN\<close> into a string; without a first pair, \<open>undefined + NaN\<close> is \<open>NaN\<close>.
\<close>

fun sample_bounds :: "arith \<Rightarrow> bounds \<Rightarrow> real \<Rightarrow> coord" where
  "sample_bounds ar (Bounds lower upper) u =
     Num (js_add ar (Fin lower) (js_mul ar (js_sub ar (Fin upper) (Fin lower)) (Fin u)))"
| "sample_bounds ar (Wrapped []) u = Num NaN"
| "sample_bounds ar (Wrapped ((a, b) # bs)) u = Text a b"

text \<open>One call of the generator per axis, in axis order.\<close>

fun sample_axes :: "arith \<Rightarrow> (nat \<Rightarrow> real) \<Rightarrow> nat \<Rightarrow> bounds list \<Rightarrow> point" where
  "sample_axes ar r k [] = []"
| "sample_axes ar r k (bounds # rest) =
     sample_bounds ar bounds (r k) # sample_axes ar r (Suc k) rest"

definition sampleUniform :: "state \<Rightarrow> point \<times> state" where
  "sampleUniform s =
     (sample_axes (platform s) (rng s) (calls s) (extent s),
      s\<lparr>calls := calls s + length (extent s)\<rparr>)"

subsection \<open>Distances\<close>

text \<open>\<open>point2[i] - point1[i]\<close>.\<close>

definition coord_diff :: "arith \<Rightarrow> point \<Rightarrow> point \<Rightarrow> nat \<Rightarrow> jsnum" where
  "coord_diff ar point2 point1 i = js_sub ar (nth_number point2 i) (nth_number point1 i)"

text \<open>
  \<open>Array(this.dim)\<close> throws a RangeError for an invalid length; indexing \<open>null\<close> throws
  a TypeError (the callback runs only when \<open>dim\<close> is positive).
\<close>

definition distance :: "state \<Rightarrow> point option \<Rightarrow> point \<Rightarrow> error + jsnum" where
  "distance s point1 point2 =
     (if \<not> array_length (dim s) then Inl RangeError
      else if dim s = 0 then Inr (js_hypot (platform s) [])
      else case point1 of
        None \<Rightarrow> Inl TypeError
      | Some p1 \<Rightarrow>
          Inr (js_hypot (platform s) (map (coord_diff (platform s) point2 p1) [0..<nat (dim s)])))"

fun distanceToExisting_loop ::
  "state \<Rightarrow> point \<Rightarrow> jsnum \<Rightarrow> point option list \<Rightarrow> error + jsnum" where
  "distanceToExisting_loop s candidate minDistance [] = Inr minDistance"
| "distanceToExisting_loop s candidate minDistance (p # ps) =
     (case distance s p candidate of
        Inl e \<Rightarrow> Inl e
      | Inr currentDistance \<Rightarrow>
          distanceToExisting_loop s candidate (js_min minDistance currentDistance) ps)"

definition distanceToExisting :: "state \<Rightarrow> point \<Rightarrow> error + jsnum" where
  "distanceToExisting s candidate = distanceToExisting_loop s candidate PosInf (points s)"

text \<open>
  \<open>const [lower, upper] = this.extent[i]\<close> throws a TypeError when the candidate has more
  coordinates than the extent has entries.
\<close>

fun distanceToBoundary_loop ::
  "arith \<Rightarrow> bounds list \<Rightarrow> jsnum \<Rightarrow> point \<Rightarrow> error + jsnum" where
  "distanceToBoundary_loop ar ext minDistance [] = Inr minDistance"
| "distanceToBoundary_loop ar [] minDistance (coordinate # cs) = Inl TypeError"
| "distanceToBoundary_loop ar (bounds # ext) minDistance (coordinate # cs) =
     distanceToBoundary_loop ar ext
       (js_min
          (js_min minDistance (js_abs (js_sub ar (to_number coordinate) (lower_number bounds))))
          (js_abs (js_sub ar (upper_number bounds) (to_number coordinate))))
       cs"

definition distanceToBoundary :: "state \<Rightarrow> point \<Rightarrow> error + jsnum" where
  "distanceToBoundary s candidate =
     distanceToBoundary_loop (platform s) (extent s) PosInf candidate"

subsection \<open>Single-step generation\<close>

text \<open>The value of \<open>distToNearest\<close> after lines 200 to 205 of \<open>next\<close>.\<close>

definition distToNearest :: "state \<Rightarrow> point \<Rightarrow> error + jsnum" where
  "distToNearest s candidate =
     (case distanceToExisting s candidate of
        Inl e \<Rightarrow> Inl e
      | Inr d \<Rightarrow>
          if repulsiveBoundary s then
            (case distanceToBoundary s candidate of
               Inl e \<Rightarrow> Inl e
             | Inr b \<Rightarrow> Inr (js_min d (js_mul (platform s) (Fin 2) b)))
          else Inr d)"

text \<open>The \<open>while\<close> loop of \<open>next\<close>, from the loop test with the current locals.\<close>

function tryLoop ::
  "state \<Rightarrow> int \<Rightarrow> point option \<Rightarrow> jsnum \<Rightarrow> error + (point option \<times> state)" where
  "tryLoop s numTries bestPoint largestDist =
     (if numTries < tries s then
        (case distToNearest (snd (sampleUniform s)) (fst (sampleUniform s)) of
           Inl e \<Rightarrow> Inl e
         | Inr d \<Rightarrow>
             if js_gt d (radius s) then
               Inr (if js_gt d largestDist then Some (fst (sampleUniform s)) else bestPoint,
                    snd (sampleUniform s))
             else
               tryLoop (snd (sampleUniform s)) (numTries + 1)
                 (if js_gt d largestDist then Some (fst (sampleUniform s)) else bestPoint)
                 (if js_gt d largestDist then d else largestDist))
      else Inr (bestPoint, s))"
  by pat_completeness auto
termination
  by (relation "measure (\<lambda>(s, numTries, bestPoint, largestDist). nat (tries s - numTries))")
    (auto simp: sampleUniform_def)

declare tryLoop.simps [simp del]

definition next_point :: "state \<Rightarrow> error + (point option \<times> state)" where
  "next_point s =
     (if int (length (points s)) = n s then Inr (None, s)
      else case tryLoop s 0 None NegInf of
        Inl e \<Rightarrow> Inl e
      | Inr (bestPoint, s') \<Rightarrow> Inr (bestPoint, s'\<lparr>points := points s' @ [bestPoint]\<rparr>))"

subsection \<open>Fill to completion\<close>

text \<open>
  A step changes nothing of the object but the generator's position and the points; the
  loop of \<open>fill\<close> terminates because each step adds one point.
\<close>

lemma sampleUniform_frame: "snd (sampleUniform s) = s\<lparr>calls := calls s + length (extent s)\<rparr>"
  by (simp add: sampleUniform_def)

lemma tryLoop_frame:
  "tryLoop s numTries bestPoint largestDist = Inr (r, s') \<Longrightarrow> s' = s\<lparr>calls := calls s'\<rparr>"
proof (induction s numTries bestPoint largestDist rule: tryLoop.induct)
  case (1 s numTries bestPoint largestDist)
  show ?case
  proof (cases "numTries < tries s")
    case False
    with "1.prems" show ?thesis by (simp add: tryLoop.simps)
  next
    case True
    obtain d where d: "distToNearest (snd (sampleUniform s)) (fst (sampleUniform s)) = Inr d"
      using "1.prems" True by (cases "distToNearest (snd (sampleUniform s)) (fst (sampleUniform s))")
        (simp_all add: tryLoop.simps)
    show ?thesis
    proof (cases "js_gt d (radius s)")
      case True
      with "1.prems" \<open>numTries < tries s\<close> d have "s' = snd (sampleUniform s)"
        by (simp add: tryLoop.simps)
      then show ?thesis by (simp add: sampleUniform_frame)
    next
      case False
      with "1.prems" \<open>numTries < tries s\<close> d
      have "tryLoop (snd (sampleUniform s)) (numTries + 1)
              (if js_gt d largestDist then Some (fst (sampleUniform s)) else bestPoint)
              (if js_gt d largestDist then d else largestDist) = Inr (r, s')"
        by (simp add: tryLoop.simps)
      from "1.IH"[OF \<open>numTries < tries s\<close> d False this]
      have "s' = (snd (sampleUniform s))\<lparr>calls := calls s'\<rparr>" .
      then show ?thesis by (simp add: sampleUniform_frame)
    qed
  qed
qed

lemma next_point_frame:
  assumes "next_point s = Inr (r, s')" and "int (length (points s)) \<noteq> n s"
  shows "s' = s\<lparr>calls := calls s', points := points s @ [r]\<rparr>"
proof -
  from assms obtain s1 where t: "tryLoop s 0 None NegInf = Inr (r, s1)"
    and s': "s' = s1\<lparr>points := points s1 @ [r]\<rparr>"
    by (auto simp: next_point_def split: sum.splits)
  have c: "calls s' = calls s1" by (simp add: s')
  have "s1\<lparr>points := points s1 @ [r]\<rparr>
      = (s\<lparr>calls := calls s1\<rparr>)\<lparr>points := points (s\<lparr>calls := calls s1\<rparr>) @ [r]\<rparr>"
    using tryLoop_frame[OF t] by (rule arg_cong[where f = "\<lambda>x. x\<lparr>points := points x @ [r]\<rparr>"])
  then show ?thesis unfolding s' c by simp
qed

lemma next_point_grows:
  assumes "next_point s = Inr (r, s')" and "int (length (points s)) \<noteq> n s"
  shows "n s' = n s" and "points s' = points s @ [r]"
proof -
  note f = next_point_frame[OF assms]
  show "n s' = n s" using arg_cong[OF f, of n] by simp
  show "points s' = points s @ [r]" using arg_cong[OF f, of points] by simp
qed

function fill :: "state \<Rightarrow> error + (point option list \<times> state)" where
  "fill s =
     (if int (length (points s)) < n s then
        (case next_point s of Inl e \<Rightarrow> Inl e | Inr (p, s') \<Rightarrow> fill s')
      else Inr (points s, s))"
  by pat_completeness auto
termination
proof (relation "measure (\<lambda>s. nat (n s - int (length (points s))))", goal_cases)
  case 1
  show ?case by simp
next
  case (2 s x2 p s')
  then have a: "next_point s = Inr (p, s')" and b: "int (length (points s)) \<noteq> n s" by auto
  show ?case using next_point_grows[OF a b] 2(1) by simp
qed

declare fill.simps [simp del]

definition getPoints :: "state \<Rightarrow> point option list" where
  "getPoints s = points s"

subsection \<open>Construction\<close>

text \<open>
  The options object. The extent is either a flat pair of numbers or an array of pairs.
  The source never reads \<open>options.periodic\<close>; the field stands for a caller passing it.
\<close>

datatype extent_arg = Flat real real | Nested "(real \<times> real) list"

datatype periodic_arg = AllAxes bool | PerAxis "bool list"

record options =
  opt_n :: "int option"
  opt_dimensions :: "int option"
  opt_extent :: "extent_arg option"
  opt_periodic :: "periodic_arg option"
  opt_tries :: "int option"
  opt_repulsiveBoundary :: "bool option"

text \<open>\<open>x || d\<close> on an optional integer: \<open>undefined\<close> and \<open>0\<close> are falsy.\<close>

definition or_default :: "int option \<Rightarrow> int \<Rightarrow> int" where
  "or_default x d = (case x of None \<Rightarrow> d | Some v \<Rightarrow> if v = 0 then d else v)"

text \<open>\<open>Array(dim).fill().map(() => [-1, 1])\<close>.\<close>

definition default_extent :: "int \<Rightarrow> error + bounds list" where
  "default_extent d =
     (if array_length d then Inr (replicate (nat d) (Bounds (- 1) 1)) else Inl RangeError)"

text \<open>
  The extent the constructor stores (lines 102 to 106). With \<open>dim = 1\<close> a given extent is
  wrapped in an array: a flat pair becomes the one axis, a nested extent becomes one
  entry that is an array of pairs. Otherwise a nested extent is stored as it is, and a
  flat pair leaves numbers where \<open>_computeExtentVolume\<close> destructures arrays, a
  TypeError that the constructor does not catch.
\<close>

definition stored_extent :: "int \<Rightarrow> extent_arg option \<Rightarrow> error + bounds list" where
  "stored_extent d e =
     (if d = 1 \<and> e \<noteq> None then
        (case e of
           Some (Flat lower upper) \<Rightarrow> Inr [Bounds lower upper]
         | Some (Nested bs) \<Rightarrow> Inr [Wrapped bs]
         | None \<Rightarrow> default_extent d)
      else case e of
        None \<Rightarrow> default_extent d
      | Some (Nested bs) \<Rightarrow> Inr (map (\<lambda>(lower, upper). Bounds lower upper) bs)
      | Some (Flat lower upper) \<Rightarrow> Inl TypeError)"

text \<open>
  \<open>volume\<close> and \<open>radius\<close> do not exist before the two compute calls assign them; the
  values given to them here are overwritten.
\<close>

definition Poissimple :: "arith \<Rightarrow> options \<Rightarrow> (nat \<Rightarrow> real) \<Rightarrow> error + state" where
  "Poissimple ar options r =
     (case stored_extent (or_default (opt_dimensions options) 2) (opt_extent options) of
        Inl e \<Rightarrow> Inl e
      | Inr ext \<Rightarrow>
          Inr ((computeLowerDistance (computeExtentVolume
            \<lparr>n = or_default (opt_n options) 10,
             dim = or_default (opt_dimensions options) 2,
             extent = ext,
             tries = or_default (opt_tries options) 30,
             rng = r,
             calls = 0,
             repulsiveBoundary =
               (case opt_repulsiveBoundary options of None \<Rightarrow> False | Some b \<Rightarrow> b),
             volume = NaN,
             radius = NaN,
             points = [],
             platform = ar\<rparr>))\<lparr>points := []\<rparr>))"

subsection \<open>Manual point injection\<close>

datatype shape_error = ShapeMismatch

text \<open>
  Modelled from the spec: \<open>addPoint\<close> is not in the source files; the README documents
  the call \<open>ps.addPoint(point)\<close>. Following section 4.6 of the specification, it checks
  only that the coordinate count equals \<open>dimensions\<close>, fails with a shape-mismatch error
  otherwise, and appends the point to the accepted points with no other check. The result
  pairs the outcome with the object after the call.
\<close>

definition addPoint :: "state \<Rightarrow> point \<Rightarrow> (shape_error + unit) \<times> state" where
  "addPoint s point =
     (if int (length point) = dim s
      then (Inr (), s\<lparr>points := points s @ [Some point]\<rparr>)
      else (Inl ShapeMismatch, s))"

section \<open>The variant \<open>PoisSimple\<close>\<close>

text \<open>
  The first listing of \<open>src/poissimple.js\<close>: the same sampler without the boundary
  repulsion, the defaults for \<open>n\<close> and \<open>dimensions\<close> and the wrapping of a flat extent.
  Its constructor destructures \<open>n\<close> and \<open>dimensions\<close> from the options and stores them
  as they are; the model takes them as integers. Its definitions carry the prefix \<open>PS_\<close>.
\<close>

record PS_state =
  PS_n :: int
  PS_dim :: int
  PS_extent :: "bounds list"
  PS_tries :: int
  PS_rng :: "nat \<Rightarrow> real"
  PS_calls :: nat
  PS_volume :: jsnum
  PS_radius :: jsnum
  PS_points :: "point option list"
  PS_platform :: arith

definition PS_computeLowerDistance :: "PS_state \<Rightarrow> PS_state" where
  "PS_computeLowerDistance s =
     s\<lparr>PS_radius :=
        js_mul (PS_platform s) (js_div (PS_platform s) (Fin (math_PI (PS_platform s))) (Fin 4))
          (js_pow (PS_platform s)
            (js_div (PS_platform s) (PS_volume s) (Fin (of_int (PS_n s))))
            (js_div (PS_platform s) (Fin 1) (Fin (of_int (PS_dim s)))))\<rparr>"

definition PS_computeExtentVolume :: "PS_state \<Rightarrow> PS_state" where
  "PS_computeExtentVolume s =
     s\<lparr>PS_volume :=
        foldl (\<lambda>volume bounds.
                 js_mul (PS_platform s) volume
                   (js_sub (PS_platform s) (upper_number bounds) (lower_number bounds)))
          (Fin 1) (PS_extent s)\<rparr>"

definition PS_sampleUniform :: "PS_state \<Rightarrow> point \<times> PS_state" where
  "PS_sampleUniform s =
     (sample_axes (PS_platform s) (PS_rng s) (PS_calls s) (PS_extent s),
      s\<lparr>PS_calls := PS_calls s + length (PS_extent s)\<rparr>)"

definition PS_distance :: "PS_state \<Rightarrow> point option \<Rightarrow> point \<Rightarrow> error + jsnum" where
  "PS_distance s p1 p2 =
     (if \<not> array_length (PS_dim s) then Inl RangeError
      else if PS_dim s = 0 then Inr (js_hypot (PS_platform s) [])
      else case p1 of
        None \<Rightarrow> Inl TypeError
      | Some q1 \<Rightarrow>
          Inr (js_hypot (PS_platform s)
                 (map (coord_diff (PS_platform s) p2 q1) [0..<nat (PS_dim s)])))"

fun PS_distanceToExisting_loop ::
  "PS_state \<Rightarrow> point \<Rightarrow> jsnum \<Rightarrow> point option list \<Rightarrow> error + jsnum" where
  "PS_distanceToExisting_loop s candidate minDistance [] = Inr minDistance"
| "PS_distanceToExisting_loop s candidate minDistance (p # ps) =
     (case PS_distance s p candidate of
        Inl e \<Rightarrow> Inl e
      | Inr currentDistance \<Rightarrow>
          PS_distanceToExisting_loop s candidate (js_min minDistance currentDistance) ps)"

definition PS_distanceToExisting :: "PS_state \<Rightarrow> point \<Rightarrow> error + jsnum" where
  "PS_distanceToExisting s candidate =
     PS_distanceToExisting_loop s candidate PosInf (PS_points s)"

function PS_tryLoop ::
  "PS_state \<Rightarrow> int \<Rightarrow> point option \<Rightarrow> jsnum \<Rightarrow> error + (point option \<times> PS_state)" where
  "PS_tryLoop s numTries bestPoint largestDist =
     (if numTries < PS_tries s then
        (case PS_distanceToExisting (snd (PS_sampleUniform s)) (fst (PS_sampleUniform s)) of
           Inl e \<Rightarrow> Inl e
         | Inr d \<Rightarrow>
             if js_gt d (PS_radius s) then
               Inr (if js_gt d largestDist then Some (fst (PS_sampleUniform s)) else bestPoint,
                    snd (PS_sampleUniform s))
             else
               PS_tryLoop (snd (PS_sampleUniform s)) (numTries + 1)
                 (if js_gt d largestDist then Some (fst (PS_sampleUniform s)) else bestPoint)
                 (if js_gt d largestDist then d else largestDist))
      else Inr (bestPoint, s))"
  by pat_completeness auto
termination
  by (relation "measure (\<lambda>(s, numTries, bestPoint, largestDist). nat (PS_tries s - numTries))")
    (auto simp: PS_sampleUniform_def)

declare PS_tryLoop.simps [simp del]

definition PS_next :: "PS_state \<Rightarrow> error + (point option \<times> PS_state)" where
  "PS_next s =
     (if int (length (PS_points s)) = PS_n s then Inr (None, s)
      else case PS_tryLoop s 0 None NegInf of
        Inl e \<Rightarrow> Inl e
      | Inr (bestPoint, s') \<Rightarrow> Inr (bestPoint, s'\<lparr>PS_points := PS_points s' @ [bestPoint]\<rparr>))"

lemma PS_sampleUniform_frame:
  "snd (PS_sampleUniform s) = s\<lparr>PS_calls := PS_calls s + length (PS_extent s)\<rparr>"
  by (simp add: PS_sampleUniform_def)

lemma PS_tryLoop_frame:
  "PS_tryLoop s numTries bestPoint largestDist = Inr (r, s')
   \<Longrightarrow> s' = s\<lparr>PS_calls := PS_calls s'\<rparr>"
proof (induction s numTries bestPoint largestDist rule: PS_tryLoop.induct)
  case (1 s numTries bestPoint largestDist)
  let ?c = "fst (PS_sampleUniform s)"
  let ?s1 = "snd (PS_sampleUniform s)"
  show ?case
  proof (cases "numTries < PS_tries s")
    case False
    with "1.prems" show ?thesis by (simp add: PS_tryLoop.simps[of s])
  next
    case True
    obtain d where d: "PS_distanceToExisting ?s1 ?c = Inr d"
      using "1.prems" True
      by (cases "PS_distanceToExisting ?s1 ?c") (simp_all add: PS_tryLoop.simps[of s])
    show ?thesis
    proof (cases "js_gt d (PS_radius s)")
      case True
      with "1.prems" \<open>numTries < PS_tries s\<close> d have "s' = ?s1"
        by (simp add: PS_tryLoop.simps[of s])
      then show ?thesis by (simp add: PS_sampleUniform_frame)
    next
      case False
      with "1.prems" \<open>numTries < PS_tries s\<close> d
      have "PS_tryLoop ?s1 (numTries + 1)
              (if js_gt d largestDist then Some ?c else bestPoint)
              (if js_gt d largestDist then d else largestDist) = Inr (r, s')"
        by (simp add: PS_tryLoop.simps[of s])
      from "1.IH"[OF \<open>numTries < PS_tries s\<close> d False this]
      have "s' = ?s1\<lparr>PS_calls := PS_calls s'\<rparr>" .
      then show ?thesis by (simp add: PS_sampleUniform_frame)
    qed
  qed
qed

lemma PS_next_grows:
  assumes "PS_next s = Inr (r, s')" and "int (length (PS_points s)) \<noteq> PS_n s"
  shows "PS_n s' = PS_n s" and "PS_points s' = PS_points s @ [r]"
proof -
  from assms obtain s1 where t: "PS_tryLoop s 0 None NegInf = Inr (r, s1)"
    and s': "s' = s1\<lparr>PS_points := PS_points s1 @ [r]\<rparr>"
    by (auto simp: PS_next_def split: sum.splits)
  note f = PS_tryLoop_frame[OF t]
  have "PS_n s1 = PS_n s" "PS_points s1 = PS_points s"
    using arg_cong[OF f, of PS_n] arg_cong[OF f, of PS_points] by simp_all
  then show "PS_n s' = PS_n s" and "PS_points s' = PS_points s @ [r]"
    by (simp_all add: s')
qed

function PS_fill :: "PS_state \<Rightarrow> error + (point option list \<times> PS_state)" where
  "PS_fill s =
     (if int (length (PS_points s)) < PS_n s then
        (case PS_next s of Inl e \<Rightarrow> Inl e | Inr (p, s') \<Rightarrow> PS_fill s')
      else Inr (PS_points s, s))"
  by pat_completeness auto
termination
proof (relation "measure (\<lambda>s. nat (PS_n s - int (length (PS_points s))))", goal_cases)
  case 1
  show ?case by simp
next
  case (2 s x2 p s')
  then have a: "PS_next s = Inr (p, s')" and b: "int (length (PS_points s)) \<noteq> PS_n s" by auto
  show ?case using PS_next_grows[OF a b] 2(1) by simp
qed

declare PS_fill.simps [simp del]

definition PS_getAllPoints :: "PS_state \<Rightarrow> point option list" where
  "PS_getAllPoints s = PS_points s"

text \<open>
  The constructor (lines 2 to 12): the extent is stored as given, so a flat pair leaves
  numbers where \<open>_computeExtentVolume\<close> destructures arrays, a TypeError.
\<close>

definition PoisSimple ::
  "arith \<Rightarrow> int \<Rightarrow> int \<Rightarrow> extent_arg option \<Rightarrow> int option \<Rightarrow> (nat \<Rightarrow> real)
   \<Rightarrow> error + PS_state" where
  "PoisSimple ar n0 dimensions extent0 tries0 r =
     (case (case extent0 of
              None \<Rightarrow> default_extent dimensions
            | Some (Nested bs) \<Rightarrow> Inr (map (\<lambda>(lower, upper). Bounds lower upper) bs)
            | Some (Flat lower upper) \<Rightarrow> Inl TypeError) of
        Inl e \<Rightarrow> Inl e
      | Inr ext \<Rightarrow>
          Inr ((PS_computeLowerDistance (PS_computeExtentVolume
            \<lparr>PS_n = n0,
             PS_dim = dimensions,
             PS_extent = ext,
             PS_tries = or_default tries0 30,
             PS_rng = r,
             PS_calls = 0,
             PS_volume = NaN,
             PS_radius = NaN,
             PS_points = [],
             PS_platform = ar\<rparr>))\<lparr>PS_points := []\<rparr>))"

section \<open>Callers, candidates and well-formed objects\<close>

text \<open>A caller's calls in order, with what each returned; an exception ends the run.\<close>

datatype call = Next | Fill

datatype returned = Returned "point option" | Filled "point option list"

fun run :: "call list \<Rightarrow> state \<Rightarrow> error + (returned list \<times> state)" where
  "run [] s = Inr ([], s)"
| "run (Next # cs) s =
     (case next_point s of
        Inl e \<Rightarrow> Inl e
      | Inr (p, s') \<Rightarrow>
          (case run cs s' of Inl e \<Rightarrow> Inl e | Inr (out, s'') \<Rightarrow> Inr (Returned p # out, s'')))"
| "run (Fill # cs) s =
     (case fill s of
        Inl e \<Rightarrow> Inl e
      | Inr (ps, s') \<Rightarrow>
          (case run cs s' of Inl e \<Rightarrow> Inl e | Inr (out, s'') \<Rightarrow> Inr (Filled ps # out, s'')))"

fun PS_run :: "call list \<Rightarrow> PS_state \<Rightarrow> error + (returned list \<times> PS_state)" where
  "PS_run [] s = Inr ([], s)"
| "PS_run (Next # cs) s =
     (case PS_next s of
        Inl e \<Rightarrow> Inl e
      | Inr (p, s') \<Rightarrow>
          (case PS_run cs s' of Inl e \<Rightarrow> Inl e | Inr (out, s'') \<Rightarrow> Inr (Returned p # out, s'')))"
| "PS_run (Fill # cs) s =
     (case PS_fill s of
        Inl e \<Rightarrow> Inl e
      | Inr (ps, s') \<Rightarrow>
          (case PS_run cs s' of Inl e \<Rightarrow> Inl e | Inr (out, s'') \<Rightarrow> Inr (Filled ps # out, s'')))"

text \<open>The object without its \<open>repulsiveBoundary\<close> field.\<close>

definition to_PS :: "state \<Rightarrow> PS_state" where
  "to_PS s =
     \<lparr>PS_n = n s, PS_dim = dim s, PS_extent = extent s, PS_tries = tries s, PS_rng = rng s,
      PS_calls = calls s, PS_volume = volume s, PS_radius = radius s, PS_points = points s,
      PS_platform = platform s\<rparr>"

text \<open>
  The \<open>j\<close>-th candidate a step draws when it starts in \<open>s\<close> (counting from 0), and the
  object after \<open>j\<close> candidates were drawn.
\<close>

definition cand :: "state \<Rightarrow> nat \<Rightarrow> point" where
  "cand s j = sample_axes (platform s) (rng s) (calls s + j * length (extent s)) (extent s)"

definition drawn :: "state \<Rightarrow> nat \<Rightarrow> state" where
  "drawn s j = s\<lparr>calls := calls s + j * length (extent s)\<rparr>"

text \<open>The effective distance of the \<open>j\<close>-th candidate of a step, \<open>NaN\<close> if computing it throws.\<close>

definition candDist :: "state \<Rightarrow> nat \<Rightarrow> jsnum" where
  "candDist s j = (case distToNearest s (cand s j) of Inl e \<Rightarrow> NaN | Inr d \<Rightarrow> d)"

text \<open>
  Objects on which no step throws: the dimension count is a valid array length and no
  accepted point is \<open>null\<close>.
\<close>

definition wf_state :: "state \<Rightarrow> bool" where
  "wf_state s = (array_length (dim s) \<and> None \<notin> set (points s))"

text \<open>The fields that no method changes.\<close>

definition same_config :: "state \<Rightarrow> state \<Rightarrow> bool" where
  "same_config s s' =
     (n s' = n s \<and> dim s' = dim s \<and> extent s' = extent s \<and> tries s' = tries s \<and>
      rng s' = rng s \<and> repulsiveBoundary s' = repulsiveBoundary s \<and>
      volume s' = volume s \<and> radius s' = radius s \<and> platform s' = platform s)"

section \<open>The specification's distances\<close>

text \<open>
  For minima the numbers are ordered with \<open>NaN\<close> below \<open>-Infinity\<close>, so that a minimum
  over values one of which is \<open>NaN\<close> is \<open>NaN\<close>, as \<open>Math.min\<close> has it. The order is used
  for minima only; the comparison of the source is \<open>js_gt\<close>.
\<close>

instantiation jsnum :: linorder
begin

fun less_eq_jsnum :: "jsnum \<Rightarrow> jsnum \<Rightarrow> bool" where
  "less_eq_jsnum NaN b = True"
| "less_eq_jsnum NegInf b = (b \<noteq> NaN)"
| "less_eq_jsnum (Fin x) (Fin y) = (x \<le> y)"
| "less_eq_jsnum (Fin x) PosInf = True"
| "less_eq_jsnum (Fin x) b = False"
| "less_eq_jsnum PosInf b = (b = PosInf)"

definition less_jsnum :: "jsnum \<Rightarrow> jsnum \<Rightarrow> bool" where
  "less_jsnum a b = (a \<le> b \<and> \<not> b \<le> a)"

instance
proof
  fix x y z :: jsnum
  show "(x < y) = (x \<le> y \<and> \<not> y \<le> x)" by (simp add: less_jsnum_def)
  show "x \<le> x" by (cases x) simp_all
  show "x \<le> y \<Longrightarrow> y \<le> z \<Longrightarrow> x \<le> z" by (cases x; cases y; cases z) simp_all
  show "x \<le> y \<Longrightarrow> y \<le> x \<Longrightarrow> x = y" by (cases x; cases y) simp_all
  show "x \<le> y \<or> y \<le> x" by (cases x; cases y) auto
qed

end

text \<open>
  The distances in the words of the specification, on the platform's numbers. The
  distance to an edge is the absolute difference; the boundary distance is the minimum,
  over all axes, of the candidate's distance to the nearer of the axis's two edges; the
  Euclidean distance is the hypotenuse of the per-axis differences; the
  nearest-neighbour distance is the minimum distance over all accepted points, and
  \<open>+Infinity\<close> when there is none; the effective distance is the nearest-neighbour
  distance, or with boundary repulsion the minimum of it and twice the boundary distance.
\<close>

definition spec_edge_distance :: "arith \<Rightarrow> bounds \<Rightarrow> coord \<Rightarrow> jsnum" where
  "spec_edge_distance ar b c =
     min (js_abs (js_sub ar (to_number c) (lower_number b)))
         (js_abs (js_sub ar (upper_number b) (to_number c)))"

definition spec_boundary_distance :: "arith \<Rightarrow> bounds list \<Rightarrow> point \<Rightarrow> jsnum" where
  "spec_boundary_distance ar ext c = Min (set (map2 (spec_edge_distance ar) ext c))"

definition spec_euclidean :: "arith \<Rightarrow> nat \<Rightarrow> point \<Rightarrow> point \<Rightarrow> jsnum" where
  "spec_euclidean ar d p q =
     js_hypot ar (map (\<lambda>i. js_sub ar (nth_number q i) (nth_number p i)) [0..<d])"

definition spec_nearest_neighbor :: "state \<Rightarrow> point \<Rightarrow> jsnum" where
  "spec_nearest_neighbor s c =
     (if points s = [] then PosInf
      else Min (set (map (\<lambda>p. spec_euclidean (platform s) (nat (dim s)) (the p) c) (points s))))"

definition spec_effective_distance :: "state \<Rightarrow> point \<Rightarrow> jsnum" where
  "spec_effective_distance s c =
     (if repulsiveBoundary s
      then min (spec_nearest_neighbor s c)
             (js_mul (platform s) (Fin 2) (spec_boundary_distance (platform s) (extent s) c))
      else spec_nearest_neighbor s c)"

section \<open>The specification's radius\<close>

text \<open>
  The radius in the words of the specification, on the platform's numbers: the axes are
  those of the extent the caller configured (the one flat pair, the nested pairs, or
  \<open>[-1, 1]\<close> on each of the \<open>d\<close> axes by default), \<open>V\<close> is the product of their spans taken
  in axis order, and the radius is \<open>(\<pi>/4) \<sqdot> (V/n)\<^bsup>1/d\<^esup>\<close>.
\<close>

definition spec_axes :: "options \<Rightarrow> (real \<times> real) list" where
  "spec_axes options =
     (case opt_extent options of
        None \<Rightarrow> replicate (nat (or_default (opt_dimensions options) 2)) (- 1, 1)
      | Some (Flat lower upper) \<Rightarrow> [(lower, upper)]
      | Some (Nested bs) \<Rightarrow> bs)"

definition spec_volume :: "arith \<Rightarrow> (real \<times> real) list \<Rightarrow> jsnum" where
  "spec_volume ar axes =
     foldl (\<lambda>V (lower, upper). js_mul ar V (js_sub ar (Fin upper) (Fin lower))) (Fin 1) axes"

definition spec_radius :: "arith \<Rightarrow> jsnum \<Rightarrow> int \<Rightarrow> int \<Rightarrow> jsnum" where
  "spec_radius ar V n0 d =
     js_mul ar (js_div ar (Fin (math_PI ar)) (Fin 4))
       (js_pow ar (js_div ar V (Fin (of_int n0))) (js_div ar (Fin 1) (Fin (of_int d))))"

section \<open>Rounding\<close>








section \<open>Example objects\<close>

text \<open>
  Two random sources that return the same value at every call.
\<close>

definition half_rng :: "nat \<Rightarrow> real" where
  "half_rng i = 1 / 2"

definition zero_rng :: "nat \<Rightarrow> real" where
  "zero_rng i = 0"

text \<open>One point on \<open>[0, 1]\<close>.\<close>

definition unit_options :: options where
  "unit_options =
     \<lparr>opt_n = Some 1, opt_dimensions = Some 1, opt_extent = Some (Flat 0 1),
      opt_periodic = None, opt_tries = None, opt_repulsiveBoundary = None\<rparr>"

definition unit_fresh :: state where
  "unit_fresh =
     \<lparr>n = 1, dim = 1, extent = [Bounds 0 1], tries = 30, rng = half_rng, calls = 0,
      repulsiveBoundary = False, volume = Fin 1,
      radius = Fin (884279719003555 / 1125899906842624), points = [],
      platform = ranged_arith\<rparr>"

text \<open>The unit interval in exact arithmetic.\<close>

definition unit_exact :: state where
  "unit_exact =
     \<lparr>n = 1, dim = 1, extent = [Bounds 0 1], tries = 30, rng = half_rng, calls = 0,
      repulsiveBoundary = False, volume = Fin 1, radius = Fin (pi / 4), points = [],
      platform = exact_arith\<rparr>"




text \<open>
  The largest power of two among the doubles, \<open>2\<^sup>1\<^sup>0\<^sup>2\<^sup>3\<close>.
\<close>

definition huge :: real where
  "huge = 2 ^ 1023"

text \<open>
  Two points on \<open>[-2\<^sup>1\<^sup>0\<^sup>2\<^sup>3, 2\<^sup>1\<^sup>0\<^sup>2\<^sup>3]\<close>, whose span overflows, with boundary repulsion and one
  try per point; the source draws 0.
\<close>

definition wide_options :: options where
  "wide_options =
     \<lparr>opt_n = Some 2, opt_dimensions = Some 1, opt_extent = Some (Flat (- huge) huge),
      opt_periodic = None, opt_tries = Some 1, opt_repulsiveBoundary = Some True\<rparr>"

definition wide_fresh :: state where
  "wide_fresh =
     \<lparr>n = 2, dim = 1, extent = [Bounds (- huge) huge], tries = 1, rng = zero_rng,
      calls = 0, repulsiveBoundary = True, volume = PosInf, radius = PosInf, points = [],
      platform = ranged_arith\<rparr>"



text \<open>One dimension with the extent \<open>[[0, 1]]\<close> in nested form.\<close>

definition nested_options :: options where
  "nested_options =
     \<lparr>opt_n = Some 1, opt_dimensions = Some 1, opt_extent = Some (Nested [(0, 1)]),
      opt_periodic = None, opt_tries = None, opt_repulsiveBoundary = None\<rparr>"

definition nested_fresh :: state where
  "nested_fresh =
     \<lparr>n = 1, dim = 1, extent = [Wrapped [(0, 1)]], tries = 30, rng = half_rng, calls = 0,
      repulsiveBoundary = False, volume = NaN, radius = NaN, points = [],
      platform = ranged_arith\<rparr>"

text \<open>
  Three points on \<open>[0, 1]\<close>, one accepted: the first candidate is too near, the second is
  beyond the radius.
\<close>

definition exit_rng :: "nat \<Rightarrow> real" where
  "exit_rng i = (if i = 0 then 9 / 16 else 7 / 8)"

definition exit_state :: state where
  "exit_state =
     \<lparr>n = 3, dim = 1, extent = [Bounds 0 1], tries = 30, rng = exit_rng, calls = 0,
      repulsiveBoundary = False, volume = Fin 1, radius = Fin (1 / 4),
      points = [Some [Num (Fin (1 / 2))]], platform = ranged_arith\<rparr>"



text \<open>The unit square with boundary repulsion and one accepted point.\<close>

definition boundary_state :: state where
  "boundary_state =
     \<lparr>n = 5, dim = 2, extent = [Bounds 0 1, Bounds 0 1], tries = 30, rng = half_rng, calls = 0,
      repulsiveBoundary = True, volume = Fin 1, radius = Fin (1 / 4),
      points = [Some [Num (Fin (1 / 2)), Num (Fin (1 / 2))]], platform = ranged_arith\<rparr>"

text \<open>Four points on the default square.\<close>

definition square_options :: options where
  "square_options =
     \<lparr>opt_n = Some 4, opt_dimensions = Some 2, opt_extent = None,
      opt_periodic = None, opt_tries = None, opt_repulsiveBoundary = None\<rparr>"

definition square_fresh :: state where
  "square_fresh =
     \<lparr>n = 4, dim = 2, extent = [Bounds (- 1) 1, Bounds (- 1) 1], tries = 30, rng = half_rng,
      calls = 0, repulsiveBoundary = False, volume = Fin 4,
      radius = Fin (884279719003555 / 1125899906842624), points = [],
      platform = ranged_arith\<rparr>"

text \<open>Two points on \<open>[0, 1]\<close> with \<open>periodic = true\<close>.\<close>

definition periodic_options :: options where
  "periodic_options =
     \<lparr>opt_n = Some 2, opt_dimensions = Some 1, opt_extent = Some (Flat 0 1),
      opt_periodic = Some (AllAxes True), opt_tries = None, opt_repulsiveBoundary = None\<rparr>"

section \<open>Properties of the number operations\<close>

lemma js_gt_irrefl: "\<not> js_gt a a"
  by (cases a) simp_all

lemma js_gt_trans: "js_gt a b \<Longrightarrow> js_gt b c \<Longrightarrow> js_gt a c"
  by (cases a; cases b; cases c) simp_all

lemma js_gt_asym: "js_gt a b \<Longrightarrow> \<not> js_gt b a"
  by (cases a; cases b) simp_all

lemma js_gt_below: "\<not> js_gt a l \<Longrightarrow> js_gt m l \<Longrightarrow> a \<noteq> NaN \<Longrightarrow> js_gt m a"
  by (cases a; cases l; cases m) simp_all

lemma js_gt_above: "js_gt a r \<Longrightarrow> \<not> js_gt l r \<Longrightarrow> l \<noteq> NaN \<Longrightarrow> js_gt a l"
  by (cases a; cases r; cases l) simp_all

lemma js_gt_NegInf [simp]: "\<not> js_gt NegInf b"
  by (cases b) simp_all

lemma js_gt_NaN [simp]: "\<not> js_gt a NaN"
  by (cases a) simp_all

lemma js_gt_PosInf [simp]: "\<not> js_gt a PosInf"
  by (cases a) simp_all

lemma js_gt_above_NegInf: "js_gt a r \<Longrightarrow> js_gt a NegInf"
  by (cases a; cases r) simp_all

lemma js_min_min: "js_min a b = min a b"
  by (cases a; cases b) (auto simp: js_min_def min_def)

lemma PosInf_top [simp]: "a \<le> PosInf"
  by (cases a) simp_all

lemma min_PosInf [simp]: "min PosInf a = a" "min a PosInf = a"
  by (simp_all add: min_def antisym)

lemma min_Fin [simp]: "min (Fin a) (Fin b) = Fin (min a b)"
  by (simp add: min_def)


section \<open>The ranged arithmetic\<close>

lemma ranged_arith_simps:
  "fl ranged_arith = overflow"
  "math_PI ranged_arith = 884279719003555 / 281474976710656"
  "math_hypot ranged_arith xs = overflow (sqrt (\<Sum>x\<leftarrow>xs. x\<^sup>2))"
  "math_pow ranged_arith x y =
     (if x = 0 then PosInf
      else overflow (if 0 < x then x powr y
                     else (if odd \<lfloor>y\<rfloor> then - 1 else 1) * (\<bar>x\<bar> powr y)))"
  by (simp_all add: ranged_arith_def)

lemma four_less_limit: "(4::real) < 2 ^ 1024"
proof -
  have "(2::real) ^ 2 < 2 ^ 1024" by (rule power_strict_increasing) simp_all
  then show ?thesis by simp
qed

lemma overflow_small [simp]: "\<bar>x\<bar> \<le> 4 \<Longrightarrow> overflow x = Fin x"
  using four_less_limit by (simp add: overflow_def)

lemma huge_positive [simp]: "0 < huge" "huge \<noteq> 0" "\<not> huge < 0"
  by (simp_all add: huge_def)

lemma overflow_huge [simp]: "overflow (2 * huge) = PosInf" "overflow huge = Fin huge"
  "overflow (- huge) = Fin (- huge)"
  by (simp_all add: overflow_def huge_def)




lemma sqrt_9_64: "sqrt (9 / 64) = 3 / 8"
  by (rule real_sqrt_unique) (simp_all add: power2_eq_square)

section \<open>Distances\<close>

lemma distance_spec:
  "array_length (dim s)
   \<Longrightarrow> distance s (Some q) c = Inr (spec_euclidean (platform s) (nat (dim s)) q c)"
  by (auto simp: distance_def spec_euclidean_def coord_diff_def[abs_def])

lemma distanceToExisting_loop_spec:
  assumes "array_length (dim s)"
  shows "None \<notin> set ps \<Longrightarrow> ps \<noteq> []
    \<Longrightarrow> distanceToExisting_loop s c m ps
       = Inr (min m (Min (set (map (\<lambda>p. spec_euclidean (platform s) (nat (dim s)) (the p) c) ps))))"
proof (induction ps arbitrary: m)
  case Nil
  then show ?case by simp
next
  case (Cons p ps)
  from Cons.prems(1) obtain q where q: "p = Some q" by (cases p) auto
  let ?x = "spec_euclidean (platform s) (nat (dim s)) q c"
  have d: "distance s (Some q) c = Inr ?x" by (rule distance_spec[OF assms])
  show ?case
  proof (cases "ps = []")
    case True
    then show ?thesis by (simp add: d q js_min_min)
  next
    case False
    from Cons.prems(1) have "None \<notin> set ps" by simp
    from Cons.IH[OF this False, of "js_min m ?x"] False
    show ?thesis by (simp add: d q js_min_min min.assoc)
  qed
qed

lemma distanceToExisting_spec:
  assumes "wf_state s"
  shows "distanceToExisting s c = Inr (spec_nearest_neighbor s c)"
proof (cases "points s = []")
  case True
  then show ?thesis by (simp add: distanceToExisting_def spec_nearest_neighbor_def)
next
  case False
  from assms have a: "array_length (dim s)" and b: "None \<notin> set (points s)"
    by (simp_all add: wf_state_def)
  from distanceToExisting_loop_spec[OF a b False, of c PosInf] False
  show ?thesis by (simp add: distanceToExisting_def spec_nearest_neighbor_def)
qed


lemma distanceToBoundary_loop_total:
  "length c \<le> length ext \<Longrightarrow> \<exists>d. distanceToBoundary_loop ar ext m c = Inr d"
proof (induction ar ext m c rule: distanceToBoundary_loop.induct)
  case (1 ar ext minDistance)
  then show ?case by simp
next
  case (2 ar minDistance coordinate cs)
  then show ?case by simp
next
  case (3 ar bounds ext minDistance coordinate cs)
  then show ?case by simp
qed

lemma distanceToBoundary_loop_spec:
  "length c \<le> length ext \<Longrightarrow> c \<noteq> []
   \<Longrightarrow> distanceToBoundary_loop ar ext m c
       = Inr (min m (Min (set (map2 (spec_edge_distance ar) ext c))))"
proof (induction ar ext m c rule: distanceToBoundary_loop.induct)
  case (1 ar ext minDistance)
  then show ?case by simp
next
  case (2 ar minDistance coordinate cs)
  then show ?case by simp
next
  case (3 ar bounds ext minDistance coordinate cs)
  let ?e = "spec_edge_distance ar bounds coordinate"
  have m: "js_min (js_min minDistance
              (js_abs (js_sub ar (to_number coordinate) (lower_number bounds))))
              (js_abs (js_sub ar (upper_number bounds) (to_number coordinate)))
      = min minDistance ?e"
    by (simp add: js_min_min spec_edge_distance_def min.assoc)
  show ?case
  proof (cases "cs = []")
    case True
    then show ?thesis by (simp add: m)
  next
    case False
    from "3.prems"(1) have "length cs \<le> length ext" by simp
    from "3.IH"[OF this False]
    have "distanceToBoundary_loop ar (bounds # ext) minDistance (coordinate # cs)
        = Inr (min (min minDistance ?e) (Min (set (map2 (spec_edge_distance ar) ext cs))))"
      by (simp add: m)
    moreover have "set (map2 (spec_edge_distance ar) ext cs) \<noteq> {}"
      using False "3.prems"(1) by (cases ext; cases cs) simp_all
    ultimately show ?thesis by (simp add: min.assoc)
  qed
qed

lemma distToNearest_spec:
  assumes "wf_state s" and "length c = length (extent s)" and "c \<noteq> []"
  shows "distToNearest s c = Inr (spec_effective_distance s c)"
proof -
  note nn = distanceToExisting_spec[OF assms(1), of c]
  have "length c \<le> length (extent s)" using assms(2) by simp
  from distanceToBoundary_loop_spec[OF this assms(3), of "platform s" PosInf]
  have bd: "distanceToBoundary s c = Inr (spec_boundary_distance (platform s) (extent s) c)"
    by (simp add: distanceToBoundary_def spec_boundary_distance_def)
  show ?thesis
    by (simp add: distToNearest_def nn bd spec_effective_distance_def js_min_min)
qed


lemma distToNearest_total:
  assumes "wf_state s" and "length c = length (extent s)"
  shows "\<exists>d. distToNearest s c = Inr d"
proof -
  note nn = distanceToExisting_spec[OF assms(1), of c]
  from distanceToBoundary_loop_total[of c "extent s" "platform s" PosInf] assms(2)
  obtain e where e: "distanceToBoundary s c = Inr e"
    by (auto simp: distanceToBoundary_def)
  show ?thesis by (simp add: distToNearest_def nn e)
qed

lemma length_sample_axes [simp]: "length (sample_axes ar r k ext) = length ext"
  by (induction ext arbitrary: k) simp_all

lemma length_cand [simp]: "length (cand s j) = length (extent s)"
  by (simp add: cand_def)

lemma cand_Nil [simp]: "cand s j = [] \<longleftrightarrow> extent s = []"
  using length_cand[of s j] by (metis length_0_conv)

lemma distToNearest_first:
  assumes "points s = []" "\<not> repulsiveBoundary s"
  shows "distToNearest s c = Inr PosInf"
  using assms by (simp add: distToNearest_def distanceToExisting_def)

lemma distance_drawn: "distance (drawn s j) p c = distance s p c"
  by (simp add: distance_def drawn_def cong: option.case_cong)

lemma distanceToExisting_loop_drawn:
  "distanceToExisting_loop (drawn s j) c m ps = distanceToExisting_loop s c m ps"
  by (induction ps arbitrary: m) (simp_all add: distance_drawn cong: sum.case_cong)

lemma distToNearest_drawn [simp]: "distToNearest (drawn s j) c = distToNearest s c"
proof -
  have "points (drawn s j) = points s" "extent (drawn s j) = extent s"
    "repulsiveBoundary (drawn s j) = repulsiveBoundary s" "platform (drawn s j) = platform s"
    by (simp_all add: drawn_def)
  then show ?thesis
    by (simp add: distToNearest_def distanceToExisting_def distanceToBoundary_def
        distanceToExisting_loop_drawn cong: sum.case_cong if_cong)
qed

lemma candDist_total:
  assumes "wf_state s"
  shows "distToNearest s (cand s j) = Inr (candDist s j)"
proof -
  from distToNearest_total[OF assms, of "cand s j"]
  obtain d where "distToNearest s (cand s j) = Inr d" by auto
  then show ?thesis by (simp add: candDist_def)
qed





section \<open>The loop of a step\<close>

lemma drawn_0 [simp]: "drawn s 0 = s"
  by (simp add: drawn_def)

lemma drawn_fields [simp]:
  "tries (drawn s j) = tries s" "radius (drawn s j) = radius s" "n (drawn s j) = n s"
  "points (drawn s j) = points s" "extent (drawn s j) = extent s" "rng (drawn s j) = rng s"
  "dim (drawn s j) = dim s" "calls (drawn s j) = calls s + j * length (extent s)"
  "platform (drawn s j) = platform s" "repulsiveBoundary (drawn s j) = repulsiveBoundary s"
  by (simp_all add: drawn_def)

lemma sampleUniform_drawn:
  "sampleUniform (drawn s j) = (cand s j, drawn s (Suc j))"
  by (simp add: sampleUniform_def cand_def drawn_def add.assoc)

lemma tryLoop_unfold:
  "tryLoop (drawn s i) k b l =
     (if k < tries s then
        (case distToNearest s (cand s i) of
           Inl e \<Rightarrow> Inl e
         | Inr d \<Rightarrow>
             if js_gt d (radius s) then
               Inr (if js_gt d l then Some (cand s i) else b, drawn s (Suc i))
             else
               tryLoop (drawn s (Suc i)) (k + 1)
                 (if js_gt d l then Some (cand s i) else b)
                 (if js_gt d l then d else l))
      else Inr (b, drawn s i))"
  by (subst tryLoop.simps) (simp add: sampleUniform_drawn cong: sum.case_cong if_cong)

lemma tryLoop_exit:
  assumes k: "int k < tries s" "distToNearest s (cand s k) = Inr dk" "js_gt dk (radius s)"
  shows "i \<le> k \<Longrightarrow> l \<noteq> NaN \<Longrightarrow> \<not> js_gt l (radius s)
    \<Longrightarrow> \<forall>j. i \<le> j \<and> j < k \<longrightarrow> (\<exists>d. distToNearest s (cand s j) = Inr d \<and> \<not> js_gt d (radius s))
    \<Longrightarrow> tryLoop (drawn s i) (int i) b l = Inr (Some (cand s k), drawn s (Suc k))"
proof (induction "k - i" arbitrary: i b l)
  case 0
  then have "i = k" by simp
  have "js_gt dk l" using k(3) "0.prems"(3) "0.prems"(2) by (rule js_gt_above)
  then show ?case
    unfolding \<open>i = k\<close> by (subst tryLoop_unfold) (simp add: k)
next
  case (Suc x)
  then have ik: "i < k" by simp
  with Suc.prems(4) obtain d where d: "distToNearest s (cand s i) = Inr d" "\<not> js_gt d (radius s)"
    by blast
  let ?l = "if js_gt d l then d else l"
  have l1: "?l \<noteq> NaN"
    using Suc.prems(2) by (cases d) auto
  have l2: "\<not> js_gt ?l (radius s)"
    using Suc.prems(3) d(2) by simp
  have rest: "\<forall>j. Suc i \<le> j \<and> j < k \<longrightarrow>
      (\<exists>d. distToNearest s (cand s j) = Inr d \<and> \<not> js_gt d (radius s))"
    using Suc.prems(4) by auto
  have "x = k - Suc i" using Suc.hyps(2) by simp
  from Suc.hyps(1)[OF this _ l1 l2 rest, of "if js_gt d l then Some (cand s i) else b"] ik
  have "tryLoop (drawn s (Suc i)) (int (Suc i))
          (if js_gt d l then Some (cand s i) else b) ?l = Inr (Some (cand s k), drawn s (Suc k))"
    by simp
  moreover have "int i < tries s" using ik k(1) by simp
  ultimately show ?case
    by (subst tryLoop_unfold) (simp add: d add.commute)
qed

lemma range_split:
  "P i \<Longrightarrow> \<forall>j. Suc i \<le> j \<and> j < T \<longrightarrow> P j \<Longrightarrow> \<forall>j. i \<le> j \<and> j < T \<longrightarrow> P (j::nat)"
proof (intro allI impI)
  fix j
  assume a: "P i" "\<forall>j. Suc i \<le> j \<and> j < T \<longrightarrow> P j" "i \<le> j \<and> j < T"
  show "P j"
  proof (cases "j = i")
    case True
    with a(1) show ?thesis by simp
  next
    case False
    with a(3) have "Suc i \<le> j \<and> j < T" by simp
    with a(2) show ?thesis by blast
  qed
qed

text \<open>
  When no candidate exceeds the radius the loop runs to the end of the budget and keeps
  the first candidate of the largest distance above the initial \<open>largestDist\<close>; a
  candidate whose distance is \<open>NaN\<close> is never kept.
\<close>

lemma tryLoop_exhaust:
  "i \<le> nat (tries s)
   \<Longrightarrow> \<forall>j. i \<le> j \<and> j < nat (tries s) \<longrightarrow>
        (\<exists>d. distToNearest s (cand s j) = Inr d \<and> \<not> js_gt d (radius s))
   \<Longrightarrow> \<exists>b'. tryLoop (drawn s i) (int i) b l = Inr (b', drawn s (nat (tries s))) \<and>
        ((b' = b \<and> (\<forall>j. i \<le> j \<and> j < nat (tries s) \<longrightarrow> \<not> js_gt (candDist s j) l)) \<or>
         (\<exists>m. i \<le> m \<and> m < nat (tries s) \<and> b' = Some (cand s m) \<and> js_gt (candDist s m) l \<and>
            (\<forall>j. i \<le> j \<and> j < nat (tries s) \<longrightarrow> \<not> js_gt (candDist s j) (candDist s m)) \<and>
            (\<forall>j. i \<le> j \<and> j < m \<longrightarrow>
               candDist s j = NaN \<or> js_gt (candDist s m) (candDist s j))))"
proof (induction "nat (tries s) - i" arbitrary: i b l)
  case 0
  then have "i = nat (tries s)" by simp
  then have "\<not> int i < tries s" by simp
  then have "tryLoop (drawn s i) (int i) b l = Inr (b, drawn s i)"
    by (subst tryLoop_unfold) simp
  then have r0: "tryLoop (drawn s i) (int i) b l = Inr (b, drawn s (nat (tries s)))"
    using \<open>i = nat (tries s)\<close> by simp
  have "\<forall>j. i \<le> j \<and> j < nat (tries s) \<longrightarrow> \<not> js_gt (candDist s j) l"
    using \<open>i = nat (tries s)\<close> by auto
  then have k0: "b = b \<and> (\<forall>j. i \<le> j \<and> j < nat (tries s) \<longrightarrow> \<not> js_gt (candDist s j) l)"
    by (rule conjI[OF refl])
  show ?case
    by (rule exI[of _ b], rule conjI, rule r0, rule disjI1, rule k0)
next
  case (Suc x)
  let ?T = "nat (tries s)"
  from Suc.hyps(2) have iT: "i < ?T" by simp
  then have it: "int i < tries s" by simp
  from Suc.prems(2) iT obtain d where d: "distToNearest s (cand s i) = Inr d"
    "\<not> js_gt d (radius s)" by blast
  have cd: "candDist s i = d" by (simp add: candDist_def d(1))
  let ?b = "if js_gt d l then Some (cand s i) else b"
  let ?l = "if js_gt d l then d else l"
  have step: "tryLoop (drawn s i) (int i) b l = tryLoop (drawn s (Suc i)) (int (Suc i)) ?b ?l"
    by (subst tryLoop_unfold) (simp add: d it add.commute)
  have rest: "\<forall>j. Suc i \<le> j \<and> j < ?T \<longrightarrow>
      (\<exists>d. distToNearest s (cand s j) = Inr d \<and> \<not> js_gt d (radius s))"
    using Suc.prems(2) by auto
  have "x = ?T - Suc i" using Suc.hyps(2) by simp
  moreover have "Suc i \<le> ?T" using iT by simp
  ultimately have "\<exists>b'. tryLoop (drawn s (Suc i)) (int (Suc i)) ?b ?l = Inr (b', drawn s ?T) \<and>
        ((b' = ?b \<and> (\<forall>j. Suc i \<le> j \<and> j < ?T \<longrightarrow> \<not> js_gt (candDist s j) ?l)) \<or>
         (\<exists>m. Suc i \<le> m \<and> m < ?T \<and> b' = Some (cand s m) \<and> js_gt (candDist s m) ?l \<and>
            (\<forall>j. Suc i \<le> j \<and> j < ?T \<longrightarrow> \<not> js_gt (candDist s j) (candDist s m)) \<and>
            (\<forall>j. Suc i \<le> j \<and> j < m \<longrightarrow>
               candDist s j = NaN \<or> js_gt (candDist s m) (candDist s j))))"
    using rest by (rule Suc.hyps(1))
  then obtain b' where run: "tryLoop (drawn s (Suc i)) (int (Suc i)) ?b ?l = Inr (b', drawn s ?T)"
    and alt: "(b' = ?b \<and> (\<forall>j. Suc i \<le> j \<and> j < ?T \<longrightarrow> \<not> js_gt (candDist s j) ?l)) \<or>
         (\<exists>m. Suc i \<le> m \<and> m < ?T \<and> b' = Some (cand s m) \<and> js_gt (candDist s m) ?l \<and>
            (\<forall>j. Suc i \<le> j \<and> j < ?T \<longrightarrow> \<not> js_gt (candDist s j) (candDist s m)) \<and>
            (\<forall>j. Suc i \<le> j \<and> j < m \<longrightarrow>
               candDist s j = NaN \<or> js_gt (candDist s m) (candDist s j)))"
    by (elim exE conjE)
  have res: "tryLoop (drawn s i) (int i) b l = Inr (b', drawn s ?T)"
    using step run by (rule trans)
  from alt consider
    (keep) "b' = ?b" "\<forall>j. Suc i \<le> j \<and> j < ?T \<longrightarrow> \<not> js_gt (candDist s j) ?l"
  | (later) m where "Suc i \<le> m" "m < ?T" "b' = Some (cand s m)" "js_gt (candDist s m) ?l"
      "\<forall>j. Suc i \<le> j \<and> j < ?T \<longrightarrow> \<not> js_gt (candDist s j) (candDist s m)"
      "\<forall>j. Suc i \<le> j \<and> j < m \<longrightarrow> candDist s j = NaN \<or> js_gt (candDist s m) (candDist s j)"
    by (elim disjE conjE exE)
  then show ?case
  proof cases
    case keep
    show ?thesis
    proof (cases "js_gt d l")
      case True
      with keep have b': "b' = Some (cand s i)"
        and r: "\<forall>j. Suc i \<le> j \<and> j < ?T \<longrightarrow> \<not> js_gt (candDist s j) (candDist s i)"
        by (simp_all add: cd)
      have "\<not> js_gt (candDist s i) (candDist s i)" by (rule js_gt_irrefl)
      then have mx: "\<forall>j. i \<le> j \<and> j < ?T \<longrightarrow> \<not> js_gt (candDist s j) (candDist s i)"
        using r by (rule range_split)
      have fs: "\<forall>j. i \<le> j \<and> j < i \<longrightarrow>
          candDist s j = NaN \<or> js_gt (candDist s i) (candDist s j)" by auto
      have "js_gt (candDist s i) l" using True cd by simp
      with iT b' mx fs
      have X: "i \<le> i \<and> i < ?T \<and> b' = Some (cand s i) \<and> js_gt (candDist s i) l \<and>
            (\<forall>j. i \<le> j \<and> j < ?T \<longrightarrow> \<not> js_gt (candDist s j) (candDist s i)) \<and>
            (\<forall>j. i \<le> j \<and> j < i \<longrightarrow>
               candDist s j = NaN \<or> js_gt (candDist s i) (candDist s j))"
        by (intro conjI) simp_all
      show ?thesis
        by (rule exI[of _ b'], rule conjI, rule res, rule disjI2, rule exI[of _ i], rule X)
    next
      case False
      with keep have b': "b' = b"
        and r: "\<forall>j. Suc i \<le> j \<and> j < ?T \<longrightarrow> \<not> js_gt (candDist s j) l"
        by simp_all
      have "\<not> js_gt (candDist s i) l" using False cd by simp
      then have "\<forall>j. i \<le> j \<and> j < ?T \<longrightarrow> \<not> js_gt (candDist s j) l"
        using r by (rule range_split)
      with b' have X: "b' = b \<and> (\<forall>j. i \<le> j \<and> j < ?T \<longrightarrow> \<not> js_gt (candDist s j) l)"
        by (intro conjI)
      show ?thesis
        by (rule exI[of _ b'], rule conjI, rule res, rule disjI1, rule X)
    qed
  next
    case later
    have im: "i \<le> m" using later(1) by simp
    have ml: "js_gt (candDist s m) l"
    proof (cases "js_gt d l")
      case True
      with later(4) have "js_gt (candDist s m) d" by simp
      then show ?thesis using True by (rule js_gt_trans)
    next
      case False
      with later(4) show ?thesis by simp
    qed
    have first: "candDist s i = NaN \<or> js_gt (candDist s m) (candDist s i)"
    proof (cases "js_gt d l")
      case True
      with later(4) show ?thesis by (simp add: cd)
    next
      case False
      then have A: "\<not> js_gt (candDist s i) l" by (simp add: cd)
      show ?thesis
      proof (cases "candDist s i = NaN")
        case True
        then show ?thesis by (rule disjI1)
      next
        case B: False
        have "js_gt (candDist s m) (candDist s i)" by (rule js_gt_below[OF A ml B])
        then show ?thesis by (rule disjI2)
      qed
    qed
    have top: "\<not> js_gt (candDist s i) (candDist s m)"
    proof (cases "candDist s i = NaN")
      case True
      then show ?thesis by simp
    next
      case False
      with first have "js_gt (candDist s m) (candDist s i)" by simp
      then show ?thesis by (rule js_gt_asym)
    qed
    have mx: "\<forall>j. i \<le> j \<and> j < ?T \<longrightarrow> \<not> js_gt (candDist s j) (candDist s m)"
      using top later(5) by (rule range_split)
    have fs: "\<forall>j. i \<le> j \<and> j < m \<longrightarrow>
        candDist s j = NaN \<or> js_gt (candDist s m) (candDist s j)"
      using first later(6)
      by (rule range_split[where P = "\<lambda>j. candDist s j = NaN \<or> js_gt (candDist s m) (candDist s j)"])
    from im later(2,3) ml mx fs
    have X: "i \<le> m \<and> m < ?T \<and> b' = Some (cand s m) \<and> js_gt (candDist s m) l \<and>
            (\<forall>j. i \<le> j \<and> j < ?T \<longrightarrow> \<not> js_gt (candDist s j) (candDist s m)) \<and>
            (\<forall>j. i \<le> j \<and> j < m \<longrightarrow>
               candDist s j = NaN \<or> js_gt (candDist s m) (candDist s j))"
      by (intro conjI)
    show ?thesis
      by (rule exI[of _ b'], rule conjI, rule res, rule disjI2, rule exI[of _ m], rule X)
  qed
qed

text \<open>
  A loop whose distances are all computed ends, and it ends without a point exactly when
  no candidate of the budget has a distance above \<open>-Infinity\<close>.
\<close>

lemma tryLoop_cases:
  assumes cw: "\<And>j. distToNearest s (cand s j) = Inr (candDist s j)"
  shows "\<exists>b k. tryLoop (drawn s 0) (int 0) None NegInf = Inr (b, drawn s k) \<and>
      (b = None \<longleftrightarrow> (\<forall>j. j < nat (tries s) \<longrightarrow> \<not> js_gt (candDist s j) NegInf)) \<and>
      (\<forall>p. b = Some p \<longrightarrow> (\<exists>m. m < nat (tries s) \<and> p = cand s m))"
proof (cases "\<exists>k. k < nat (tries s) \<and> js_gt (candDist s k) (radius s)")
  case True
  define k where "k = (LEAST k. k < nat (tries s) \<and> js_gt (candDist s k) (radius s))"
  from True have k: "k < nat (tries s) \<and> js_gt (candDist s k) (radius s)"
    unfolding k_def by (rule LeastI_ex)
  have least: "\<not> (j < nat (tries s) \<and> js_gt (candDist s j) (radius s))" if "j < k" for j
    using that unfolding k_def by (rule not_less_Least)
  have a: "int k < tries s" using k by (simp add: zless_nat_eq_int_zless)
  have b: "distToNearest s (cand s k) = Inr (candDist s k)" using cw by simp
  have c: "js_gt (candDist s k) (radius s)" using k by simp
  have d: "\<forall>j. 0 \<le> j \<and> j < k \<longrightarrow>
      (\<exists>d. distToNearest s (cand s j) = Inr d \<and> \<not> js_gt d (radius s))"
  proof (intro allI impI)
    fix j assume "0 \<le> j \<and> j < k"
    then have "j < k" by simp
    with k have "j < nat (tries s)" by simp
    with least[OF \<open>j < k\<close>] have "\<not> js_gt (candDist s j) (radius s)" by simp
    with cw[of j] show "\<exists>d. distToNearest s (cand s j) = Inr d \<and> \<not> js_gt d (radius s)"
      by blast
  qed
  have t: "tryLoop (drawn s 0) (int 0) None NegInf = Inr (Some (cand s k), drawn s (Suc k))"
    by (rule tryLoop_exit[OF a b c _ _ _ d]) simp_all
  have "js_gt (candDist s k) NegInf" using c by (rule js_gt_above_NegInf)
  with k have n: "\<not> (\<forall>j. j < nat (tries s) \<longrightarrow> \<not> js_gt (candDist s j) NegInf)" by blast
  have m: "\<forall>p. Some (cand s k) = Some p \<longrightarrow> (\<exists>m. m < nat (tries s) \<and> p = cand s m)"
    using k by auto
  show ?thesis
    by (rule exI[of _ "Some (cand s k)"], rule exI[of _ "Suc k"], rule conjI, rule t,
        rule conjI, use n in simp, rule m)
next
  case False
  have "\<forall>j. 0 \<le> j \<and> j < nat (tries s) \<longrightarrow>
      (\<exists>d. distToNearest s (cand s j) = Inr d \<and> \<not> js_gt d (radius s))"
  proof (intro allI impI)
    fix j assume j: "0 \<le> j \<and> j < nat (tries s)"
    with False have "\<not> js_gt (candDist s j) (radius s)" by blast
    with cw[of j] show "\<exists>d. distToNearest s (cand s j) = Inr d \<and> \<not> js_gt d (radius s)"
      by blast
  qed
  from tryLoop_exhaust[OF _ this, of None NegInf]
  obtain b' where run: "tryLoop (drawn s 0) (int 0) None NegInf = Inr (b', drawn s (nat (tries s)))"
    and alt: "(b' = None \<and> (\<forall>j. 0 \<le> j \<and> j < nat (tries s) \<longrightarrow> \<not> js_gt (candDist s j) NegInf)) \<or>
      (\<exists>m. 0 \<le> m \<and> m < nat (tries s) \<and> b' = Some (cand s m) \<and> js_gt (candDist s m) NegInf \<and>
         (\<forall>j. 0 \<le> j \<and> j < nat (tries s) \<longrightarrow> \<not> js_gt (candDist s j) (candDist s m)) \<and>
         (\<forall>j. 0 \<le> j \<and> j < m \<longrightarrow> candDist s j = NaN \<or> js_gt (candDist s m) (candDist s j)))"
    by auto
  from alt have iff: "b' = None \<longleftrightarrow> (\<forall>j. j < nat (tries s) \<longrightarrow> \<not> js_gt (candDist s j) NegInf)"
    by auto
  from alt have m: "\<forall>p. b' = Some p \<longrightarrow> (\<exists>m. m < nat (tries s) \<and> p = cand s m)"
    by auto
  show ?thesis
    by (rule exI[of _ b'], rule exI[of _ "nat (tries s)"], rule conjI, rule run,
        rule conjI, rule iff, rule m)
qed


section \<open>Steps\<close>

lemma next_point_tryLoop:
  assumes "int (length (points s)) \<noteq> n s"
    and "tryLoop (drawn s 0) (int 0) None NegInf = Inr (b, drawn s k)"
  shows "next_point s = Inr (b, (drawn s k)\<lparr>points := points s @ [b]\<rparr>)"
  using assms by (simp add: next_point_def)

lemma next_point_done:
  "int (length (points s)) = n s \<Longrightarrow> next_point s = Inr (None, s)"
  by (simp add: next_point_def)

lemma next_point_exit:
  assumes "int (length (points s)) \<noteq> n s"
    and "int k < tries s"
    and "distToNearest s (cand s k) = Inr dk"
    and "js_gt dk (radius s)"
    and "\<forall>j. j < k \<longrightarrow> (\<exists>d. distToNearest s (cand s j) = Inr d \<and> \<not> js_gt d (radius s))"
  shows "next_point s =
    Inr (Some (cand s k), (drawn s (Suc k))\<lparr>points := points s @ [Some (cand s k)]\<rparr>)"
proof -
  have "\<forall>j. 0 \<le> j \<and> j < k \<longrightarrow> (\<exists>d. distToNearest s (cand s j) = Inr d \<and> \<not> js_gt d (radius s))"
    using assms(5) by simp
  then have "tryLoop (drawn s 0) (int 0) None NegInf = Inr (Some (cand s k), drawn s (Suc k))"
    by (intro tryLoop_exit[OF assms(2,3,4)]) simp_all
  with assms(1) show ?thesis by (rule next_point_tryLoop)
qed

lemma next_point_cases:
  assumes cw: "\<And>j. distToNearest s (cand s j) = Inr (candDist s j)"
    and ne: "int (length (points s)) \<noteq> n s"
  shows "\<exists>b k. next_point s = Inr (b, (drawn s k)\<lparr>points := points s @ [b]\<rparr>) \<and>
      (b = None \<longleftrightarrow> (\<forall>j. j < nat (tries s) \<longrightarrow> \<not> js_gt (candDist s j) NegInf)) \<and>
      (\<forall>p. b = Some p \<longrightarrow> (\<exists>m. m < nat (tries s) \<and> p = cand s m))"
proof -
  from tryLoop_cases[of s, OF cw] obtain b k where
    t: "tryLoop (drawn s 0) (int 0) None NegInf = Inr (b, drawn s k)"
    and r: "b = None \<longleftrightarrow> (\<forall>j. j < nat (tries s) \<longrightarrow> \<not> js_gt (candDist s j) NegInf)"
      "\<forall>p. b = Some p \<longrightarrow> (\<exists>m. m < nat (tries s) \<and> p = cand s m)"
    by blast
  note np = next_point_tryLoop[OF ne t]
  show ?thesis
    by (rule exI[of _ b], rule exI[of _ k], rule conjI, rule np, rule conjI, rule r(1), rule r(2))
qed

lemma next_point_total:
  assumes "wf_state s"
  shows "\<exists>b s'. next_point s = Inr (b, s')"
proof (cases "int (length (points s)) = n s")
  case True
  then show ?thesis by (simp add: next_point_done)
next
  case False
  from next_point_cases[of s, OF candDist_total[OF assms] False] show ?thesis by blast
qed

lemma next_point_first:
  assumes "points s = []" "\<not> repulsiveBoundary s" "n s \<noteq> 0" "0 < tries s"
    and "js_gt PosInf (radius s)"
  shows "next_point s = Inr (Some (cand s 0), (drawn s (Suc 0))\<lparr>points := [Some (cand s 0)]\<rparr>)"
proof -
  have "int (length (points s)) \<noteq> n s" using assms(1,3) by simp
  moreover have "int 0 < tries s" using assms(4) by simp
  moreover have "distToNearest s (cand s 0) = Inr PosInf"
    using assms(1,2) by (rule distToNearest_first)
  moreover note assms(5)
  moreover have "\<forall>j. j < (0::nat) \<longrightarrow>
      (\<exists>d. distToNearest s (cand s j) = Inr d \<and> \<not> js_gt d (radius s))" by simp
  ultimately have "next_point s =
    Inr (Some (cand s 0), (drawn s (Suc 0))\<lparr>points := points s @ [Some (cand s 0)]\<rparr>)"
    by (rule next_point_exit)
  then show ?thesis by (simp add: assms(1))
qed

lemma next_point_one_try:
  assumes "int (length (points s)) \<noteq> n s" and "tries s = 1"
    and "distToNearest s (cand s 0) = Inr d" and "\<not> js_gt d (radius s)"
  shows "next_point s =
    Inr (if js_gt d NegInf then Some (cand s 0) else None,
         (drawn s (Suc 0))
           \<lparr>points := points s @ [if js_gt d NegInf then Some (cand s 0) else None]\<rparr>)"
proof -
  have "tryLoop (drawn s (Suc 0)) (0 + 1) (if js_gt d NegInf then Some (cand s 0) else None)
          (if js_gt d NegInf then d else NegInf)
      = Inr (if js_gt d NegInf then Some (cand s 0) else None, drawn s (Suc 0))"
    by (subst tryLoop_unfold) (simp add: assms(2))
  then have "tryLoop (drawn s 0) (int 0) None NegInf
      = Inr (if js_gt d NegInf then Some (cand s 0) else None, drawn s (Suc 0))"
    by (subst tryLoop_unfold) (simp add: assms(2,3,4))
  with assms(1) show ?thesis by (rule next_point_tryLoop)
qed



lemma next_point_bound:
  assumes "next_point s = Inr (r, s')" and "int (length (points s)) \<le> n s"
  shows "int (length (points s')) \<le> n s' \<and> n s' = n s"
proof (cases "int (length (points s)) = n s")
  case True
  with assms(1) have "s' = s" by (simp add: next_point_def)
  with assms(2) show ?thesis by simp
next
  case False
  from next_point_grows[OF assms(1) False] assms(2) False show ?thesis by simp
qed

lemma same_config_refl: "same_config s s"
  by (simp add: same_config_def)

lemma same_config_trans: "same_config s s1 \<Longrightarrow> same_config s1 s2 \<Longrightarrow> same_config s s2"
  by (simp add: same_config_def)

lemma next_point_same:
  assumes "next_point s = Inr (r, s')"
  shows "same_config s s'"
proof (cases "int (length (points s)) = n s")
  case True
  with assms have "s' = s" by (simp add: next_point_def)
  then show ?thesis by (simp add: same_config_refl)
next
  case False
  note f = next_point_frame[OF assms False]
  show ?thesis
    unfolding same_config_def
    using arg_cong[OF f, of n] arg_cong[OF f, of dim] arg_cong[OF f, of extent]
      arg_cong[OF f, of tries] arg_cong[OF f, of rng] arg_cong[OF f, of repulsiveBoundary]
      arg_cong[OF f, of volume] arg_cong[OF f, of radius] arg_cong[OF f, of platform]
    by simp
qed

lemma next_point_repulsiveBoundary:
  "next_point s = Inr (r, s') \<Longrightarrow> repulsiveBoundary s' = repulsiveBoundary s"
  using next_point_same[of s r s'] by (simp add: same_config_def)

section \<open>Fill and sequences of calls\<close>

lemma fill_bound:
  "fill s = Inr (ps, s') \<Longrightarrow> int (length (points s)) \<le> n s
   \<Longrightarrow> int (length (points s')) \<le> n s' \<and> n s' = n s"
proof (induction s rule: fill.induct)
  case (1 s)
  show ?case
  proof (cases "int (length (points s)) < n s")
    case False
    with "1.prems" show ?thesis by (simp add: fill.simps[of s])
  next
    case True
    with "1.prems"(1) obtain p s1 where s1: "next_point s = Inr (p, s1)" "fill s1 = Inr (ps, s')"
      by (auto simp: fill.simps[of s] split: sum.splits)
    from next_point_bound[OF s1(1) "1.prems"(2)]
    have b: "int (length (points s1)) \<le> n s1" "n s1 = n s" by simp_all
    from "1.IH"[OF True s1(1) refl s1(2) b(1)] b(2) show ?thesis by simp
  qed
qed

lemma run_bound:
  "run cs s = Inr (out, s') \<Longrightarrow> int (length (points s)) \<le> n s
   \<Longrightarrow> int (length (points s')) \<le> n s' \<and> n s' = n s"
proof (induction cs arbitrary: s out)
  case Nil
  then show ?case by simp
next
  case (Cons c cs)
  show ?case
  proof (cases c)
    case Next
    with Cons.prems(1) obtain p s1 out1 where
      s1: "next_point s = Inr (p, s1)" "run cs s1 = Inr (out1, s')"
      by (auto split: sum.splits)
    from next_point_bound[OF s1(1) Cons.prems(2)]
    have b: "int (length (points s1)) \<le> n s1" "n s1 = n s" by simp_all
    from Cons.IH[OF s1(2) b(1)] b(2) show ?thesis by simp
  next
    case Fill
    with Cons.prems(1) obtain ps s1 out1 where
      s1: "fill s = Inr (ps, s1)" "run cs s1 = Inr (out1, s')"
      by (auto split: sum.splits)
    from fill_bound[OF s1(1) Cons.prems(2)]
    have b: "int (length (points s1)) \<le> n s1" "n s1 = n s" by simp_all
    from Cons.IH[OF s1(2) b(1)] b(2) show ?thesis by simp
  qed
qed

lemma fill_same: "fill s = Inr (ps, s') \<Longrightarrow> same_config s s'"
proof (induction s rule: fill.induct)
  case (1 s)
  show ?case
  proof (cases "int (length (points s)) < n s")
    case False
    with "1.prems" show ?thesis by (simp add: fill.simps[of s] same_config_refl)
  next
    case True
    with "1.prems" obtain p s1 where s1: "next_point s = Inr (p, s1)" "fill s1 = Inr (ps, s')"
      by (auto simp: fill.simps[of s] split: sum.splits)
    from next_point_same[OF s1(1)] "1.IH"[OF True s1(1) refl s1(2)]
    show ?thesis by (rule same_config_trans)
  qed
qed

lemma run_same: "run cs s = Inr (out, s') \<Longrightarrow> same_config s s'"
proof (induction cs arbitrary: s out)
  case Nil
  then show ?case by (simp add: same_config_refl)
next
  case (Cons c cs)
  show ?case
  proof (cases c)
    case Next
    with Cons.prems obtain p s1 out1 where
      s1: "next_point s = Inr (p, s1)" "run cs s1 = Inr (out1, s')"
      by (auto split: sum.splits)
    from next_point_same[OF s1(1)] Cons.IH[OF s1(2)] show ?thesis by (rule same_config_trans)
  next
    case Fill
    with Cons.prems obtain ps s1 out1 where
      s1: "fill s = Inr (ps, s1)" "run cs s1 = Inr (out1, s')"
      by (auto split: sum.splits)
    from fill_same[OF s1(1)] Cons.IH[OF s1(2)] show ?thesis by (rule same_config_trans)
  qed
qed

lemma fill_repulsiveBoundary:
  "fill s = Inr (ps, s') \<Longrightarrow> repulsiveBoundary s' = repulsiveBoundary s"
  using fill_same[of s ps s'] by (simp add: same_config_def)

text \<open>
  The objects that \<open>next()\<close> calls alone reach from \<open>s0\<close>. Every call sequence stays
  among them, so a sequence can throw only if one of them has a dimension count that is
  no array length or holds \<open>null\<close>.
\<close>

lemma run_snoc:
  "run cs s = Inr (out, s1) \<Longrightarrow> next_point s1 = Inr (p, s2)
   \<Longrightarrow> run (cs @ [Next]) s = Inr (out @ [Returned p], s2)"
proof (induction cs arbitrary: s out)
  case Nil
  then show ?case by simp
next
  case (Cons c cs)
  show ?case
  proof (cases c)
    case Next
    with Cons.prems(1) obtain q s' out1 where
      s': "next_point s = Inr (q, s')" "run cs s' = Inr (out1, s1)" "out = Returned q # out1"
      by (auto split: sum.splits)
    from Cons.IH[OF s'(2) Cons.prems(2)] show ?thesis by (simp add: Next s'(1,3))
  next
    case Fill
    with Cons.prems(1) obtain ps s' out1 where
      s': "fill s = Inr (ps, s')" "run cs s' = Inr (out1, s1)" "out = Filled ps # out1"
      by (auto split: sum.splits)
    from Cons.IH[OF s'(2) Cons.prems(2)] show ?thesis by (simp add: Fill s'(1,3))
  qed
qed

lemma reach_step:
  assumes "\<exists>k out. run (replicate k Next) s0 = Inr (out, s)" and "next_point s = Inr (p, s')"
  shows "\<exists>k out. run (replicate k Next) s0 = Inr (out, s')"
proof -
  from assms(1) obtain k out where "run (replicate k Next) s0 = Inr (out, s)" by blast
  from run_snoc[OF this assms(2)]
  have "run (replicate (Suc k) Next) s0 = Inr (out @ [Returned p], s')"
    by (simp add: replicate_append_same)
  then show ?thesis by blast
qed

lemma reach_wf:
  assumes "array_length (dim s0)"
    and "\<forall>k out s. run (replicate k Next) s0 = Inr (out, s) \<longrightarrow> None \<notin> set (points s)"
    and "\<exists>k out. run (replicate k Next) s0 = Inr (out, s)"
  shows "wf_state s"
proof -
  from assms(3) obtain k out where r: "run (replicate k Next) s0 = Inr (out, s)" by blast
  from run_same[OF r] have "dim s = dim s0" by (simp add: same_config_def)
  moreover from assms(2) r have "None \<notin> set (points s)" by blast
  ultimately show ?thesis using assms(1) by (simp add: wf_state_def)
qed

lemma fill_reach:
  assumes "array_length (dim s0)"
    and "\<forall>k out s. run (replicate k Next) s0 = Inr (out, s) \<longrightarrow> None \<notin> set (points s)"
  shows "\<exists>k out. run (replicate k Next) s0 = Inr (out, s)
    \<Longrightarrow> \<exists>ps s'. fill s = Inr (ps, s') \<and> (\<exists>k out. run (replicate k Next) s0 = Inr (out, s'))"
proof (induction s rule: fill.induct)
  case (1 s)
  show ?case
  proof (cases "int (length (points s)) < n s")
    case False
    with "1.prems" show ?thesis by (simp add: fill.simps[of s])
  next
    case True
    from next_point_total[OF reach_wf[OF assms "1.prems"]] obtain p s1 where
      s1: "next_point s = Inr (p, s1)" by blast
    from reach_step[OF "1.prems" s1]
    have "\<exists>k out. run (replicate k Next) s0 = Inr (out, s1)" .
    from "1.IH"[OF True s1 refl this] obtain ps s' where
      "fill s1 = Inr (ps, s')" "\<exists>k out. run (replicate k Next) s0 = Inr (out, s')" by blast
    with True s1 show ?thesis by (simp add: fill.simps[of s])
  qed
qed

lemma run_reach:
  assumes "array_length (dim s0)"
    and "\<forall>k out s. run (replicate k Next) s0 = Inr (out, s) \<longrightarrow> None \<notin> set (points s)"
  shows "\<exists>k out. run (replicate k Next) s0 = Inr (out, s)
    \<Longrightarrow> \<exists>out s'. run cs s = Inr (out, s')"
proof (induction cs arbitrary: s)
  case Nil
  then show ?case by simp
next
  case (Cons c cs)
  show ?case
  proof (cases c)
    case Next
    from next_point_total[OF reach_wf[OF assms Cons.prems]] obtain p s1 where
      s1: "next_point s = Inr (p, s1)" by blast
    from Cons.IH[OF reach_step[OF Cons.prems s1]] obtain out s' where
      "run cs s1 = Inr (out, s')" by blast
    with Next s1 show ?thesis by simp
  next
    case Fill
    from fill_reach[OF assms Cons.prems] obtain ps s1 where
      s1: "fill s = Inr (ps, s1)" "\<exists>k out. run (replicate k Next) s0 = Inr (out, s1)" by blast
    from Cons.IH[OF s1(2)] obtain out s' where "run cs s1 = Inr (out, s')" by blast
    with Fill s1(1) show ?thesis by simp
  qed
qed

lemma run_throws:
  assumes "run cs s0 = Inl e"
  shows "\<not> array_length (dim s0) \<or>
    (\<exists>k out s. run (replicate k Next) s0 = Inr (out, s) \<and> None \<in> set (points s))"
proof (rule ccontr)
  assume "\<not> ?thesis"
  then have a: "array_length (dim s0)"
    and b: "\<forall>k out s. run (replicate k Next) s0 = Inr (out, s) \<longrightarrow> None \<notin> set (points s)"
    by blast+
  have "run (replicate 0 Next) s0 = Inr ([], s0)" by simp
  then have "\<exists>k out. run (replicate k Next) s0 = Inr (out, s0)" by blast
  from run_reach[OF a b this, of cs] assms show False by simp
qed



section \<open>The constructed object\<close>

lemma Poissimple_fields:
  assumes "Poissimple ar options r = Inr s"
  shows "points s = []" "calls s = 0" "rng s = r"
    "n s = or_default (opt_n options) 10"
    "dim s = or_default (opt_dimensions options) 2"
    "tries s = or_default (opt_tries options) 30"
    "repulsiveBoundary s = (case opt_repulsiveBoundary options of None \<Rightarrow> False | Some b \<Rightarrow> b)"
    "stored_extent (or_default (opt_dimensions options) 2) (opt_extent options) = Inr (extent s)"
    "platform s = ar"
    "volume s =
       foldl (\<lambda>volume bounds. js_mul ar volume (js_sub ar (upper_number bounds) (lower_number bounds)))
         (Fin 1) (extent s)"
    "radius s = spec_radius ar (volume s) (n s) (dim s)"
  using assms
  by (auto simp: Poissimple_def computeExtentVolume_def computeLowerDistance_def spec_radius_def
      split: sum.splits)

lemma or_default_nonzero: "d \<noteq> 0 \<Longrightarrow> or_default x d \<noteq> 0"
  by (simp add: or_default_def split: option.splits)

lemma foldl_volume_Bounds:
  "foldl (\<lambda>volume bounds. js_mul ar volume (js_sub ar (upper_number bounds) (lower_number bounds)))
     a (map (\<lambda>(lower, upper). Bounds lower upper) axes)
   = foldl (\<lambda>V (lower, upper). js_mul ar V (js_sub ar (Fin upper) (Fin lower))) a axes"
  by (induction axes arbitrary: a) (simp_all add: case_prod_beta)

lemma stored_extent_axes:
  assumes "stored_extent (or_default (opt_dimensions options) 2) (opt_extent options) = Inr ext"
    and "\<not> (or_default (opt_dimensions options) 2 = 1 \<and>
            (\<exists>bs. opt_extent options = Some (Nested bs)))"
  shows "ext = map (\<lambda>(lower, upper). Bounds lower upper) (spec_axes options)"
proof (cases "opt_extent options")
  case None
  with assms(1) show ?thesis
    by (auto simp: stored_extent_def default_extent_def spec_axes_def map_replicate
        split: if_splits)
next
  case (Some e)
  show ?thesis
  proof (cases e)
    case (Flat lower upper)
    with Some assms(1) show ?thesis
      by (auto simp: stored_extent_def spec_axes_def split: if_splits)
  next
    case (Nested bs)
    with Some assms show ?thesis
      by (auto simp: stored_extent_def spec_axes_def split: if_splits)
  qed
qed

lemma spec_volume_exact:
  "foldl (\<lambda>V (lower, upper). js_mul exact_arith V (js_sub exact_arith (Fin upper) (Fin lower)))
     (Fin a) axes
   = Fin (a * (\<Prod>(lower, upper)\<leftarrow>axes. upper - lower))"
  by (induction axes arbitrary: a) (simp_all add: case_prod_beta exact_arith_def mult.assoc)

lemma volume_positive:
  "\<forall>b \<in> set axes. fst b < snd b \<Longrightarrow> 0 < (\<Prod>(lower, upper)\<leftarrow>axes. upper - (lower::real))"
  by (induction axes) (simp_all add: case_prod_beta)

lemma spec_radius_exact:
  assumes "0 < V" "0 < n0" "d \<noteq> 0"
  shows "spec_radius exact_arith (Fin V) n0 d
       = Fin (pi / 4 * (V / of_int n0) powr (1 / of_int d))"
  using assms by (simp add: spec_radius_def exact_arith_def)

section \<open>Candidates within the bounds\<close>





section \<open>Simulation of \<open>PoisSimple\<close> by \<open>Poissimple\<close>\<close>

lemma to_PS_fields [simp]:
  "PS_n (to_PS s) = n s" "PS_dim (to_PS s) = dim s" "PS_extent (to_PS s) = extent s"
  "PS_tries (to_PS s) = tries s" "PS_rng (to_PS s) = rng s" "PS_calls (to_PS s) = calls s"
  "PS_volume (to_PS s) = volume s" "PS_radius (to_PS s) = radius s"
  "PS_points (to_PS s) = points s" "PS_platform (to_PS s) = platform s"
  by (simp_all add: to_PS_def)

lemma PS_sampleUniform_to_PS:
  "PS_sampleUniform (to_PS s) = (fst (sampleUniform s), to_PS (snd (sampleUniform s)))"
  by (simp add: PS_sampleUniform_def sampleUniform_def to_PS_def)

lemma PS_distance_to_PS: "PS_distance (to_PS s) p c = distance s p c"
  by (simp add: PS_distance_def distance_def cong: option.case_cong)

lemma PS_distanceToExisting_loop_to_PS:
  "PS_distanceToExisting_loop (to_PS s) c m ps = distanceToExisting_loop s c m ps"
  by (induction ps arbitrary: m) (simp_all add: PS_distance_to_PS cong: sum.case_cong)

lemma PS_distanceToExisting_to_PS:
  "\<not> repulsiveBoundary s \<Longrightarrow> PS_distanceToExisting (to_PS s) c = distToNearest s c"
  by (simp add: PS_distanceToExisting_def distToNearest_def distanceToExisting_def
      PS_distanceToExisting_loop_to_PS split: sum.splits)

lemma repulsiveBoundary_sampleUniform [simp]:
  "repulsiveBoundary (snd (sampleUniform s)) = repulsiveBoundary s"
  by (simp add: sampleUniform_def)

lemma PS_tryLoop_to_PS:
  "\<not> repulsiveBoundary s
   \<Longrightarrow> PS_tryLoop (to_PS s) numTries bestPoint largestDist
     = map_sum id (map_prod id to_PS) (tryLoop s numTries bestPoint largestDist)"
proof (induction s numTries bestPoint largestDist rule: tryLoop.induct)
  case (1 s numTries bestPoint largestDist)
  let ?c = "fst (sampleUniform s)"
  let ?s1 = "snd (sampleUniform s)"
  have rb: "\<not> repulsiveBoundary ?s1" using "1.prems" by simp
  have dist: "PS_distanceToExisting (to_PS ?s1) ?c = distToNearest ?s1 ?c"
    using rb by (rule PS_distanceToExisting_to_PS)
  show ?case
  proof (cases "numTries < tries s")
    case False
    then show ?thesis
      by (subst PS_tryLoop.simps, subst tryLoop.simps) simp
  next
    case True
    show ?thesis
    proof (cases "distToNearest ?s1 ?c")
      case (Inl e)
      with True dist show ?thesis
        by (subst PS_tryLoop.simps, subst tryLoop.simps) (simp add: PS_sampleUniform_to_PS)
    next
      case (Inr d)
      show ?thesis
      proof (cases "js_gt d (radius s)")
        case js: True
        with True dist Inr show ?thesis
          by (subst PS_tryLoop.simps, subst tryLoop.simps) (simp add: PS_sampleUniform_to_PS)
      next
        case js: False
        note ih = "1.IH"[OF True Inr js rb]
        have step: "PS_tryLoop (to_PS s) numTries bestPoint largestDist =
            PS_tryLoop (to_PS ?s1) (numTries + 1)
              (if js_gt d largestDist then Some ?c else bestPoint)
              (if js_gt d largestDist then d else largestDist)"
          using True dist Inr js
          by (subst PS_tryLoop.simps) (simp add: PS_sampleUniform_to_PS)
        have step': "tryLoop s numTries bestPoint largestDist =
            tryLoop ?s1 (numTries + 1)
              (if js_gt d largestDist then Some ?c else bestPoint)
              (if js_gt d largestDist then d else largestDist)"
          using True Inr js by (subst tryLoop.simps) simp
        show ?thesis unfolding step step' by (rule ih)
      qed
    qed
  qed
qed

lemma to_PS_points_update:
  "to_PS (s\<lparr>points := ps\<rparr>) = (to_PS s)\<lparr>PS_points := ps\<rparr>"
  by (simp add: to_PS_def)

lemma PS_next_to_PS:
  assumes "\<not> repulsiveBoundary s"
  shows "PS_next (to_PS s) = map_sum id (map_prod id to_PS) (next_point s)"
proof (cases "int (length (points s)) = n s")
  case True
  then show ?thesis by (simp add: PS_next_def next_point_def)
next
  case False
  then show ?thesis
    by (cases "tryLoop s 0 None NegInf")
      (auto simp: PS_next_def next_point_def PS_tryLoop_to_PS[OF assms] to_PS_points_update)
qed

lemma PS_fill_to_PS:
  "\<not> repulsiveBoundary s \<Longrightarrow> PS_fill (to_PS s) = map_sum id (map_prod id to_PS) (fill s)"
proof (induction s rule: fill.induct)
  case (1 s)
  note nx = PS_next_to_PS[OF "1.prems"]
  show ?case
  proof (cases "int (length (points s)) < n s")
    case False
    then show ?thesis by (subst PS_fill.simps, subst fill.simps) simp
  next
    case True
    show ?thesis
    proof (cases "next_point s")
      case (Inl e)
      with True nx show ?thesis by (subst PS_fill.simps, subst fill.simps) simp
    next
      case (Inr x)
      obtain p s1 where x: "x = (p, s1)" by (cases x)
      have np: "next_point s = Inr (p, s1)" using Inr x by simp
      have rb: "\<not> repulsiveBoundary s1"
        using next_point_repulsiveBoundary[OF np] "1.prems" by simp
      note ih = "1.IH"[OF True np refl rb]
      have a: "PS_fill (to_PS s) = PS_fill (to_PS s1)"
        using True nx np by (subst PS_fill.simps) simp
      have b: "fill s = fill s1"
        using True np by (subst fill.simps) simp
      show ?thesis unfolding a b by (rule ih)
    qed
  qed
qed

lemma PS_run_to_PS:
  "\<not> repulsiveBoundary s \<Longrightarrow> PS_run cs (to_PS s) = map_sum id (map_prod id to_PS) (run cs s)"
proof (induction cs arbitrary: s)
  case Nil
  show ?case by simp
next
  case (Cons c cs)
  show ?case
  proof (cases c)
    case Next
    note nx = PS_next_to_PS[OF Cons.prems]
    show ?thesis
    proof (cases "next_point s")
      case (Inl e)
      with Next nx show ?thesis by simp
    next
      case (Inr x)
      obtain p s1 where x: "x = (p, s1)" by (cases x)
      have np: "next_point s = Inr (p, s1)" using Inr x by simp
      have rb: "\<not> repulsiveBoundary s1"
        using next_point_repulsiveBoundary[OF np] Cons.prems by simp
      from Cons.IH[OF rb] Next nx np show ?thesis
        by (cases "run cs s1") auto
    qed
  next
    case Fill
    note fl = PS_fill_to_PS[OF Cons.prems]
    show ?thesis
    proof (cases "fill s")
      case (Inl e)
      with Fill fl show ?thesis by simp
    next
      case (Inr x)
      obtain ps s1 where x: "x = (ps, s1)" by (cases x)
      have fp: "fill s = Inr (ps, s1)" using Inr x by simp
      have rb: "\<not> repulsiveBoundary s1"
        using fill_repulsiveBoundary[OF fp] Cons.prems by simp
      from Cons.IH[OF rb] Fill fl fp show ?thesis
        by (cases "run cs s1") auto
    qed
  qed
qed

lemma constructors_agree:
  assumes "opt_n options = Some n0" and "n0 \<noteq> 0"
    and "opt_dimensions options = Some d" and "2 \<le> d"
    and "opt_extent options = None \<or> (\<exists>bs. opt_extent options = Some (Nested bs))"
    and "opt_repulsiveBoundary options = None \<or> opt_repulsiveBoundary options = Some False"
  shows "PoisSimple ar n0 d (opt_extent options) (opt_tries options) r
       = map_sum id to_PS (Poissimple ar options r)"
proof -
  have od: "or_default (Some d) 2 = d" "or_default (Some n0) 10 = n0" "d \<noteq> 1"
    using assms(2,4) by (simp_all add: or_default_def)
  have rb: "(case opt_repulsiveBoundary options of None \<Rightarrow> False | Some b \<Rightarrow> b) = False"
    using assms(6) by auto
  have ext: "stored_extent d (opt_extent options) =
     (case opt_extent options of
              None \<Rightarrow> default_extent d
            | Some (Nested bs) \<Rightarrow> Inr (map (\<lambda>(lower, upper). Bounds lower upper) bs)
            | Some (Flat lower upper) \<Rightarrow> Inl TypeError)"
    using od(3) by (simp add: stored_extent_def)
  show ?thesis
    by (cases "stored_extent d (opt_extent options)")
      (simp_all add: PoisSimple_def Poissimple_def ext[symmetric] assms(1,3) od(1,2) rb to_PS_def
        PS_computeLowerDistance_def PS_computeExtentVolume_def
        computeLowerDistance_def computeExtentVolume_def)
qed

section \<open>The example objects evaluated\<close>

lemma unit_fresh_constructed: "Poissimple ranged_arith unit_options half_rng = Inr unit_fresh"
  by (simp add: Poissimple_def unit_options_def unit_fresh_def stored_extent_def
      or_default_def computeExtentVolume_def computeLowerDistance_def ranged_arith_simps)

lemma unit_exact_constructed: "Poissimple exact_arith unit_options half_rng = Inr unit_exact"
  by (simp add: Poissimple_def unit_options_def unit_exact_def stored_extent_def
      or_default_def computeExtentVolume_def computeLowerDistance_def exact_arith_def)


lemma wide_fresh_constructed: "Poissimple ranged_arith wide_options zero_rng = Inr wide_fresh"
  by (simp add: Poissimple_def wide_options_def wide_fresh_def stored_extent_def
      or_default_def computeExtentVolume_def computeLowerDistance_def ranged_arith_simps)


lemma nested_fresh_constructed: "Poissimple ranged_arith nested_options half_rng = Inr nested_fresh"
  by (simp add: Poissimple_def nested_options_def nested_fresh_def stored_extent_def
      or_default_def computeExtentVolume_def computeLowerDistance_def ranged_arith_simps)

lemma square_fresh_constructed: "Poissimple ranged_arith square_options half_rng = Inr square_fresh"
  by (simp add: Poissimple_def square_options_def square_fresh_def stored_extent_def
      default_extent_def array_length_def or_default_def computeExtentVolume_def
      computeLowerDistance_def ranged_arith_simps numeral_2_eq_2)

lemma unit_fresh_cand: "cand unit_fresh j = [Num (Fin (1 / 2))]"
  by (simp add: cand_def unit_fresh_def half_rng_def ranged_arith_simps)

lemma unit_fresh_next:
  "next_point unit_fresh =
     Inr (Some [Num (Fin (1 / 2))],
          unit_fresh\<lparr>calls := Suc 0, points := [Some [Num (Fin (1 / 2))]]\<rparr>)"
proof -
  have "next_point unit_fresh =
    Inr (Some (cand unit_fresh 0), (drawn unit_fresh (Suc 0))\<lparr>points := [Some (cand unit_fresh 0)]\<rparr>)"
    by (rule next_point_first) (simp_all add: unit_fresh_def)
  then show ?thesis by (simp add: unit_fresh_cand) (simp add: drawn_def unit_fresh_def)
qed

lemma unit_fresh_run:
  "run [Next, Next, Fill] unit_fresh =
     Inr ([Returned (Some [Num (Fin (1 / 2))]), Returned None, Filled [Some [Num (Fin (1 / 2))]]],
          unit_fresh\<lparr>calls := Suc 0, points := [Some [Num (Fin (1 / 2))]]\<rparr>)"
proof -
  let ?s = "unit_fresh\<lparr>calls := Suc 0, points := [Some [Num (Fin (1 / 2))]]\<rparr>"
  have a: "next_point ?s = Inr (None, ?s)"
    by (rule next_point_done) (simp add: unit_fresh_def)
  have b: "fill ?s = Inr ([Some [Num (Fin (1 / 2))]], ?s)"
    by (subst fill.simps) (simp add: unit_fresh_def)
  show ?thesis by (simp add: unit_fresh_next a b)
qed




lemma wide_fresh_cand: "cand wide_fresh 0 = [Num NaN]"
  by (simp add: cand_def wide_fresh_def zero_rng_def ranged_arith_simps)

lemma wide_fresh_dist: "distToNearest wide_fresh [Num NaN] = Inr NaN"
  by (simp add: distToNearest_def distanceToExisting_def distanceToBoundary_def js_min_min
      wide_fresh_def ranged_arith_simps)

lemma wide_fresh_next:
  "next_point wide_fresh = Inr (None, wide_fresh\<lparr>calls := Suc 0, points := [None]\<rparr>)"
proof -
  have a: "int (length (points wide_fresh)) \<noteq> n wide_fresh" and b: "tries wide_fresh = 1"
    by (simp_all add: wide_fresh_def)
  have c: "distToNearest wide_fresh (cand wide_fresh 0) = Inr NaN"
    by (simp add: wide_fresh_cand wide_fresh_dist)
  have d: "\<not> js_gt NaN (radius wide_fresh)" by simp
  from next_point_one_try[OF a b c d]
  show ?thesis by simp (simp add: drawn_def wide_fresh_def)
qed

lemma wide_fresh_throws:
  "next_point (wide_fresh\<lparr>calls := Suc 0, points := [None]\<rparr>) = Inl TypeError"
  by (simp add: next_point_def wide_fresh_def)
    (simp add: tryLoop.simps[of "\<lparr>n = 2, dim = 1, extent = [Bounds (- huge) huge], tries = 1,
        rng = zero_rng, calls = Suc 0, repulsiveBoundary = True, volume = PosInf,
        radius = PosInf, points = [None], platform = ranged_arith\<rparr>"]
      sampleUniform_def distToNearest_def distanceToExisting_def distance_def array_length_def)



lemma square_fresh_next:
  "next_point square_fresh =
     Inr (Some [Num (Fin 0), Num (Fin 0)],
          square_fresh\<lparr>calls := 2, points := [Some [Num (Fin 0), Num (Fin 0)]]\<rparr>)"
proof -
  have "next_point square_fresh =
    Inr (Some (cand square_fresh 0),
      (drawn square_fresh (Suc 0))\<lparr>points := [Some (cand square_fresh 0)]\<rparr>)"
    by (rule next_point_first) (simp_all add: square_fresh_def)
  moreover have "cand square_fresh 0 = [Num (Fin 0), Num (Fin 0)]"
    by (simp add: cand_def square_fresh_def half_rng_def ranged_arith_simps)
  ultimately show ?thesis by simp (simp add: drawn_def square_fresh_def)
qed

lemma exit_state_cand:
  "cand exit_state 0 = [Num (Fin (9 / 16))]" "cand exit_state (Suc 0) = [Num (Fin (7 / 8))]"
  by (simp_all add: cand_def exit_state_def exit_rng_def ranged_arith_simps)

lemma exit_state_dist:
  "distToNearest exit_state [Num (Fin (9 / 16))] = Inr (Fin (1 / 16))"
  "distToNearest exit_state [Num (Fin (7 / 8))] = Inr (Fin (3 / 8))"
  by (simp_all add: distToNearest_def distanceToExisting_def distance_def js_hypot_def
      coord_diff_def nth_number_def js_min_min array_length_def exit_state_def
      ranged_arith_simps)







section \<open>The claims\<close>

text \<open>
  C1. Take any object the constructor returns with a positive target count \<open>n\<close>, and any
  sequence of \<open>next()\<close> and \<open>fill()\<close> calls on it. After every such sequence that
  returns, the number of accepted points is at most \<open>n\<close>; and if it is exactly \<open>n\<close>,
  \<open>next()\<close> returns \<open>null\<close> and leaves the object as it is. A sequence throws only if
  the dimension count is no valid array length or some number of \<open>next()\<close> calls leaves
  \<open>null\<close> among the accepted points.
\<close>

theorem points_never_exceed_n:
  assumes "Poissimple ar options r = Inr s0" and "0 < n s0"
  shows "(\<forall>out s. run cs s0 = Inr (out, s) \<longrightarrow>
            int (length (getPoints s)) \<le> n s0 \<and>
            (int (length (getPoints s)) = n s0 \<longrightarrow> next_point s = Inr (None, s))) \<and>
         ((\<exists>e. run cs s0 = Inl e) \<longrightarrow>
            \<not> array_length (dim s0) \<or>
            (\<exists>k out s. run (replicate k Next) s0 = Inr (out, s) \<and> None \<in> set (getPoints s)))"
proof (intro conjI allI impI)
  fix out s
  assume run: "run cs s0 = Inr (out, s)"
  have "int (length (points s0)) \<le> n s0"
    using assms(2) Poissimple_fields(1)[OF assms(1)] by simp
  from run_bound[OF run this] have b: "int (length (points s)) \<le> n s" "n s = n s0" by simp_all
  then show "int (length (getPoints s)) \<le> n s0" by (simp add: getPoints_def)
  assume "int (length (getPoints s)) = n s0"
  with b(2) have "int (length (points s)) = n s" by (simp add: getPoints_def)
  then show "next_point s = Inr (None, s)" by (rule next_point_done)
next
  assume "\<exists>e. run cs s0 = Inl e"
  then obtain e where "run cs s0 = Inl e" by blast
  from run_throws[OF this]
  show "\<not> array_length (dim s0) \<or>
      (\<exists>k out s. run (replicate k Next) s0 = Inr (out, s) \<and> None \<in> set (getPoints s))"
    by (simp add: getPoints_def)
qed

theorem points_never_exceed_n_witness:
  "Poissimple ranged_arith unit_options half_rng = Inr unit_fresh \<and>
   0 < n unit_fresh \<and>
   run [Next, Next, Fill] unit_fresh =
     Inr ([Returned (Some [Num (Fin (1 / 2))]), Returned None, Filled [Some [Num (Fin (1 / 2))]]],
          unit_fresh\<lparr>calls := Suc 0, points := [Some [Num (Fin (1 / 2))]]\<rparr>) \<and>
   int (length (getPoints (unit_fresh\<lparr>calls := Suc 0, points := [Some [Num (Fin (1 / 2))]]\<rparr>)))
     = n unit_fresh \<and>
   next_point (unit_fresh\<lparr>calls := Suc 0, points := [Some [Num (Fin (1 / 2))]]\<rparr>) =
     Inr (None, unit_fresh\<lparr>calls := Suc 0, points := [Some [Num (Fin (1 / 2))]]\<rparr>) \<and>
   Poissimple ranged_arith wide_options zero_rng = Inr wide_fresh \<and>
   0 < n wide_fresh \<and>
   run [Next, Next] wide_fresh = Inl TypeError \<and>
   run (replicate 1 Next) wide_fresh =
     Inr ([Returned None], wide_fresh\<lparr>calls := Suc 0, points := [None]\<rparr>) \<and>
   None \<in> set (getPoints (wide_fresh\<lparr>calls := Suc 0, points := [None]\<rparr>))"
proof -
  let ?s = "unit_fresh\<lparr>calls := Suc 0, points := [Some [Num (Fin (1 / 2))]]\<rparr>"
  have a: "0 < n unit_fresh" by (simp add: unit_fresh_def)
  have e: "int (length (getPoints ?s)) = n unit_fresh"
    by (simp add: getPoints_def unit_fresh_def)
  from points_never_exceed_n[OF unit_fresh_constructed a, of "[Next, Next, Fill]"]
    unit_fresh_run
  have "int (length (getPoints ?s)) = n unit_fresh \<longrightarrow> next_point ?s = Inr (None, ?s)"
    by blast
  with e have u: "next_point ?s = Inr (None, ?s)" by simp
  have w: "0 < n wide_fresh" by (simp add: wide_fresh_def)
  have t: "run [Next, Next] wide_fresh = Inl TypeError"
    by (simp add: wide_fresh_next wide_fresh_throws)
  have k: "run (replicate 1 Next) wide_fresh =
     Inr ([Returned None], wide_fresh\<lparr>calls := Suc 0, points := [None]\<rparr>)"
    by (simp add: wide_fresh_next)
  have g: "None \<in> set (getPoints (wide_fresh\<lparr>calls := Suc 0, points := [None]\<rparr>))"
    by (simp add: getPoints_def)
  from unit_fresh_constructed a unit_fresh_run e u wide_fresh_constructed w t k g
  show ?thesis by (intro conjI)
qed

text \<open>
  C2. In a step with fewer than \<open>n\<close> accepted points, let the \<open>k\<close>-th candidate be the
  first whose effective distance strictly exceeds the radius. Then the loop stops there:
  exactly \<open>k + 1\<close> candidates are drawn, and the point appended and returned is that
  candidate.
\<close>

theorem next_accepts_first_above_radius:
  assumes "int (length (points s)) < n s"
    and "int k < tries s"
    and "distToNearest s (cand s k) = Inr dk"
    and "js_gt dk (radius s)"
    and "\<forall>j. j < k \<longrightarrow> (\<exists>d. distToNearest s (cand s j) = Inr d \<and> \<not> js_gt d (radius s))"
  shows "next_point s =
    Inr (Some (cand s k), (drawn s (Suc k))\<lparr>points := points s @ [Some (cand s k)]\<rparr>)"
proof -
  have "\<forall>j. 0 \<le> j \<and> j < k \<longrightarrow> (\<exists>d. distToNearest s (cand s j) = Inr d \<and> \<not> js_gt d (radius s))"
    using assms(5) by simp
  then have "tryLoop (drawn s 0) (int 0) None NegInf = Inr (Some (cand s k), drawn s (Suc k))"
    by (intro tryLoop_exit[OF assms(2,3,4)]) simp_all
  moreover have "int (length (points s)) \<noteq> n s" using assms(1) by simp
  ultimately show ?thesis by (rule next_point_tryLoop[rotated])
qed

theorem next_accepts_first_above_radius_witness:
  "int (length (points exit_state)) < n exit_state \<and>
   int (Suc 0) < tries exit_state \<and>
   distToNearest exit_state (cand exit_state 0) = Inr (Fin (1 / 16)) \<and>
   \<not> js_gt (Fin (1 / 16)) (radius exit_state) \<and>
   distToNearest exit_state (cand exit_state (Suc 0)) = Inr (Fin (3 / 8)) \<and>
   js_gt (Fin (3 / 8)) (radius exit_state) \<and>
   next_point exit_state =
     Inr (Some [Num (Fin (7 / 8))],
          exit_state\<lparr>calls := 2,
                       points := [Some [Num (Fin (1 / 2))], Some [Num (Fin (7 / 8))]]\<rparr>)"
proof -
  have a: "int (length (points exit_state)) < n exit_state"
    and b: "int (Suc 0) < tries exit_state"
    and r: "radius exit_state = Fin (1 / 4)"
    by (simp_all add: exit_state_def)
  have c: "distToNearest exit_state (cand exit_state (Suc 0)) = Inr (Fin (3 / 8))"
    and d: "distToNearest exit_state (cand exit_state 0) = Inr (Fin (1 / 16))"
    by (simp_all add: exit_state_cand exit_state_dist)
  have e: "js_gt (Fin (3 / 8)) (radius exit_state)"
    and f: "\<not> js_gt (Fin (1 / 16)) (radius exit_state)"
    by (simp_all add: r)
  have g: "\<forall>j. j < Suc 0 \<longrightarrow>
      (\<exists>d. distToNearest exit_state (cand exit_state j) = Inr d \<and>
           \<not> js_gt d (radius exit_state))"
    using d f by simp
  have "next_point exit_state =
      Inr (Some [Num (Fin (7 / 8))],
           exit_state\<lparr>calls := 2,
                        points := [Some [Num (Fin (1 / 2))], Some [Num (Fin (7 / 8))]]\<rparr>)"
    using next_accepts_first_above_radius[OF a b c e g]
    by (simp add: exit_state_cand) (simp add: drawn_def exit_state_def)
  with a b c d e f show ?thesis by simp
qed




text \<open>
  C4, as stated, fails: for one dimension the constructor wraps the extent it is given,
  so the nested form \<open>[[0, 1]]\<close> is stored as \<open>[[[0, 1]]]\<close>, the one span is the
  difference of two arrays, and the volume and the radius are \<open>NaN\<close>, although the
  product of the spans of the configured axes is 1.
\<close>

theorem radius_of_nested_line_is_NaN:
  "Poissimple ranged_arith nested_options half_rng = Inr nested_fresh \<and>
   spec_axes nested_options = [(0, 1)] \<and>
   spec_volume ranged_arith (spec_axes nested_options) = Fin 1 \<and>
   n nested_fresh = 1 \<and> dim nested_fresh = 1 \<and>
   spec_radius ranged_arith (Fin 1) 1 1 = Fin (884279719003555 / 1125899906842624) \<and>
   volume nested_fresh = NaN \<and>
   radius nested_fresh = NaN"
proof -
  have "spec_axes nested_options = [(0, 1)]"
    by (simp add: spec_axes_def nested_options_def)
  moreover have "spec_volume ranged_arith (spec_axes nested_options) = Fin 1"
    by (simp add: spec_axes_def nested_options_def spec_volume_def ranged_arith_simps)
  moreover have "spec_radius ranged_arith (Fin 1) 1 1 = Fin (884279719003555 / 1125899906842624)"
    by (simp add: spec_radius_def ranged_arith_simps)
  moreover have "n nested_fresh = 1" "dim nested_fresh = 1" "volume nested_fresh = NaN"
    "radius nested_fresh = NaN"
    by (simp_all add: nested_fresh_def)
  ultimately show ?thesis using nested_fresh_constructed by (intro conjI)
qed

text \<open>
  C4, amended. Unless the dimension count is 1 and the extent is given in nested form,
  the radius of a constructed object is \<open>(\<pi>/4) \<sqdot> (V/n)\<^bsup>1/d\<^esup>\<close> computed in the platform's
  arithmetic, where \<open>V\<close> is the product of the spans of the axes the caller configured,
  \<open>n\<close> the target count (10 by default) and \<open>d\<close> the dimension count (2 by default); no
  sequence of \<open>next()\<close> and \<open>fill()\<close> calls changes it. In exact arithmetic, with a
  positive target count and \<open>lower < upper\<close> on every axis, that value is the real
  number \<open>(\<pi>/4) \<sqdot> (V/n)\<^bsup>1/d\<^esup>\<close>.
\<close>

theorem radius_heuristic:
  assumes "Poissimple ar options r = Inr s"
    and "\<not> (or_default (opt_dimensions options) 2 = 1 \<and>
            (\<exists>bs. opt_extent options = Some (Nested bs)))"
  shows "n s = or_default (opt_n options) 10 \<and>
    dim s = or_default (opt_dimensions options) 2 \<and>
    radius s = spec_radius ar (spec_volume ar (spec_axes options)) (n s) (dim s) \<and>
    (\<forall>cs out s'. run cs s = Inr (out, s') \<longrightarrow> radius s' = radius s) \<and>
    (ar = exact_arith \<and> 0 < n s \<and> (\<forall>b \<in> set (spec_axes options). fst b < snd b) \<longrightarrow>
       radius s =
         Fin (pi / 4 *
           ((\<Prod>(lower, upper)\<leftarrow>spec_axes options. upper - lower) / of_int (n s))
             powr (1 / of_int (dim s))))"
proof -
  note f = Poissimple_fields[OF assms(1)]
  note ext = stored_extent_axes[OF f(8) assms(2)]
  have v: "volume s = spec_volume ar (spec_axes options)"
    unfolding f(10) ext spec_volume_def by (rule foldl_volume_Bounds)
  have rad: "radius s = spec_radius ar (spec_volume ar (spec_axes options)) (n s) (dim s)"
    unfolding f(11) v by (rule refl)
  have same: "\<forall>cs out s'. run cs s = Inr (out, s') \<longrightarrow> radius s' = radius s"
    using run_same by (auto simp: same_config_def)
  have exact: "radius s =
         Fin (pi / 4 *
           ((\<Prod>(lower, upper)\<leftarrow>spec_axes options. upper - lower) / of_int (n s))
             powr (1 / of_int (dim s)))"
    if "ar = exact_arith \<and> 0 < n s \<and> (\<forall>b \<in> set (spec_axes options). fst b < snd b)"
  proof -
    let ?V = "\<Prod>(lower, upper)\<leftarrow>spec_axes options. upper - lower"
    from that have ar: "ar = exact_arith" and np: "0 < n s"
      and lu: "\<forall>b \<in> set (spec_axes options). fst b < snd b" by simp_all
    have V: "spec_volume exact_arith (spec_axes options) = Fin ?V"
      unfolding spec_volume_def spec_volume_exact by simp
    have p: "0 < ?V" using lu by (rule volume_positive)
    have dz: "dim s \<noteq> 0" unfolding f(5) by (rule or_default_nonzero) simp
    show ?thesis
      unfolding rad ar V by (rule spec_radius_exact[OF p np dz])
  qed
  from f(4) f(5) rad same exact show ?thesis by blast
qed

theorem radius_heuristic_witness:
  "Poissimple exact_arith unit_options half_rng = Inr unit_exact \<and>
   0 < n unit_exact \<and> (0::real) < 1 \<and>
   radius unit_exact = Fin (pi / 4) \<and>
   Poissimple ranged_arith unit_options half_rng = Inr unit_fresh \<and>
   or_default (opt_dimensions unit_options) 2 = 1 \<and>
   opt_extent unit_options = Some (Flat 0 1) \<and>
   spec_axes unit_options = [(0, 1)] \<and>
   radius unit_fresh = spec_radius ranged_arith (Fin 1) 1 1 \<and>
   radius unit_fresh = Fin (884279719003555 / 1125899906842624) \<and>
   run [Next] unit_fresh =
     Inr ([Returned (Some [Num (Fin (1 / 2))])],
          unit_fresh\<lparr>calls := Suc 0, points := [Some [Num (Fin (1 / 2))]]\<rparr>) \<and>
   radius (unit_fresh\<lparr>calls := Suc 0, points := [Some [Num (Fin (1 / 2))]]\<rparr>) = radius unit_fresh"
proof -
  let ?s = "unit_fresh\<lparr>calls := Suc 0, points := [Some [Num (Fin (1 / 2))]]\<rparr>"
  have a: "\<not> (or_default (opt_dimensions unit_options) 2 = 1 \<and>
            (\<exists>bs. opt_extent unit_options = Some (Nested bs)))"
    by (simp add: unit_options_def)
  have d: "or_default (opt_dimensions unit_options) 2 = 1"
    "opt_extent unit_options = Some (Flat 0 1)" "spec_axes unit_options = [(0, 1)]"
    by (simp_all add: unit_options_def or_default_def spec_axes_def)
  have v: "spec_volume ranged_arith [(0, 1)] = Fin 1"
    by (simp add: spec_volume_def ranged_arith_simps)
  have nd: "n unit_fresh = 1" "dim unit_fresh = 1" by (simp_all add: unit_fresh_def)
  have run: "run [Next] unit_fresh = Inr ([Returned (Some [Num (Fin (1 / 2))])], ?s)"
    by (simp add: unit_fresh_next)
  note t = radius_heuristic[OF unit_fresh_constructed a]
  from t have "radius unit_fresh = spec_radius ranged_arith (Fin 1) 1 1"
    by (simp add: d v nd)
  moreover have "radius unit_fresh = Fin (884279719003555 / 1125899906842624)"
    by (simp add: unit_fresh_def)
  moreover from t run have "radius ?s = radius unit_fresh" by blast
  moreover have "0 < n unit_exact" "(0::real) < 1" "radius unit_exact = Fin (pi / 4)"
    by (simp_all add: unit_exact_def)
  ultimately show ?thesis using unit_exact_constructed unit_fresh_constructed d run
    by (intro conjI)
qed

text \<open>
  C5. The source does not do what the claim says: the constructor never reads
  \<open>options.periodic\<close>, so the object it builds is the same whatever the option holds, and
  \<open>_distance\<close> is the plain Euclidean distance. On the extent \<open>[0, 1]\<close> with
  \<open>periodic = true\<close> the distance between \<open>0.1\<close> and \<open>0.9\<close> is \<open>0.8\<close> in exact
  arithmetic, not \<open>0.2\<close>; and the distance between the doubles \<open>1/8\<close> and \<open>7/8\<close> is
  \<open>3/4\<close>, not the wrapped \<open>1/4\<close>.
\<close>

theorem periodic_option_is_ignored:
  "Poissimple ar (options\<lparr>opt_periodic := p\<rparr>) r = Poissimple ar options r \<and>
   (\<exists>s. Poissimple exact_arith periodic_options r = Inr s \<and>
        distance s (Some [Num (Fin (1 / 10))]) [Num (Fin (9 / 10))] = Inr (Fin (4 / 5))) \<and>
   (\<exists>s. Poissimple ranged_arith periodic_options r = Inr s \<and>
        distance s (Some [Num (Fin (1 / 8))]) [Num (Fin (7 / 8))] = Inr (Fin (3 / 4)))"
proof (intro conjI)
  show "Poissimple ar (options\<lparr>opt_periodic := p\<rparr>) r = Poissimple ar options r"
    by (simp add: Poissimple_def cong: sum.case_cong)
  have "\<exists>s. Poissimple exact_arith periodic_options r = Inr s"
    by (simp add: Poissimple_def periodic_options_def stored_extent_def or_default_def)
  then obtain s where s: "Poissimple exact_arith periodic_options r = Inr s" by blast
  from Poissimple_fields(5,9)[OF s] have "dim s = 1" "platform s = exact_arith"
    by (simp_all add: periodic_options_def or_default_def)
  then have "distance s (Some [Num (Fin (1 / 10))]) [Num (Fin (9 / 10))] = Inr (Fin (4 / 5))"
    by (simp add: distance_def js_hypot_def coord_diff_def nth_number_def array_length_def
        exact_arith_def)
  with s show "\<exists>s. Poissimple exact_arith periodic_options r = Inr s \<and>
        distance s (Some [Num (Fin (1 / 10))]) [Num (Fin (9 / 10))] = Inr (Fin (4 / 5))" by blast
  have "\<exists>s. Poissimple ranged_arith periodic_options r = Inr s"
    by (simp add: Poissimple_def periodic_options_def stored_extent_def or_default_def)
  then obtain t where t: "Poissimple ranged_arith periodic_options r = Inr t" by blast
  from Poissimple_fields(5,9)[OF t] have "dim t = 1" "platform t = ranged_arith"
    by (simp_all add: periodic_options_def or_default_def)
  then have "distance t (Some [Num (Fin (1 / 8))]) [Num (Fin (7 / 8))] = Inr (Fin (3 / 4))"
    by (simp add: distance_def js_hypot_def coord_diff_def nth_number_def array_length_def
        ranged_arith_simps)
  with t show "\<exists>s. Poissimple ranged_arith periodic_options r = Inr s \<and>
        distance s (Some [Num (Fin (1 / 8))]) [Num (Fin (7 / 8))] = Inr (Fin (3 / 4))" by blast
qed

text \<open>
  C6. \<open>addPoint\<close> with a point whose coordinate count differs from the dimension count
  fails with the shape-mismatch error and leaves the object as it is. With a point of
  the right shape, whatever its coordinates and whatever points exist, it succeeds:
  \<open>getPoints()\<close> is one longer, the earlier points are unchanged, and the new point is
  the last.
\<close>

theorem addPoint_checks_shape_only:
  "(int (length point) \<noteq> dim s \<longrightarrow> addPoint s point = (Inl ShapeMismatch, s)) \<and>
   (int (length point) = dim s \<longrightarrow>
      fst (addPoint s point) = Inr () \<and>
      getPoints (snd (addPoint s point)) = getPoints s @ [Some point] \<and>
      length (getPoints (snd (addPoint s point))) = length (getPoints s) + 1 \<and>
      take (length (getPoints s)) (getPoints (snd (addPoint s point))) = getPoints s)"
  by (simp add: addPoint_def getPoints_def)

theorem addPoint_checks_shape_only_witness:
  "int (length [Num (Fin 5), Num (Fin (1 / 2))]) = dim boundary_state \<and>
   getPoints (snd (addPoint boundary_state [Num (Fin 5), Num (Fin (1 / 2))]))
     = [Some [Num (Fin (1 / 2)), Num (Fin (1 / 2))], Some [Num (Fin 5), Num (Fin (1 / 2))]] \<and>
   int (length [Num (Fin (1 / 4))]) \<noteq> dim boundary_state \<and>
   addPoint boundary_state [Num (Fin (1 / 4))] = (Inl ShapeMismatch, boundary_state)"
proof -
  have a: "int (length [Num (Fin 5), Num (Fin (1 / 2))]) = dim boundary_state"
    and b: "int (length [Num (Fin (1 / 4))]) \<noteq> dim boundary_state"
    and c: "getPoints boundary_state = [Some [Num (Fin (1 / 2)), Num (Fin (1 / 2))]]"
    by (simp_all add: boundary_state_def getPoints_def)
  from addPoint_checks_shape_only[of "[Num (Fin 5), Num (Fin (1 / 2))]" boundary_state] a c
  have "getPoints (snd (addPoint boundary_state [Num (Fin 5), Num (Fin (1 / 2))]))
     = [Some [Num (Fin (1 / 2)), Num (Fin (1 / 2))], Some [Num (Fin 5), Num (Fin (1 / 2))]]"
    by simp
  moreover from addPoint_checks_shape_only[of "[Num (Fin (1 / 4))]" boundary_state] b
  have "addPoint boundary_state [Num (Fin (1 / 4))] = (Inl ShapeMismatch, boundary_state)"
    by blast
  ultimately show ?thesis using a b by simp
qed

text \<open>
  C7. On a well-formed object, for a candidate with one coordinate per axis of a
  non-empty extent, the effective acceptance distance that \<open>next()\<close> compares with the
  radius is the specification's: with \<open>repulsiveBoundary\<close> enabled the minimum of the
  nearest-neighbour distance and twice the boundary distance, otherwise the
  nearest-neighbour distance alone.
\<close>

theorem effective_distance_as_specified:
  assumes "wf_state s" and "length c = length (extent s)" and "c \<noteq> []"
  shows "distToNearest s c = Inr (spec_effective_distance s c) \<and>
    (repulsiveBoundary s \<longrightarrow>
       spec_effective_distance s c =
         min (spec_nearest_neighbor s c)
           (js_mul (platform s) (Fin 2) (spec_boundary_distance (platform s) (extent s) c))) \<and>
    (\<not> repulsiveBoundary s \<longrightarrow> spec_effective_distance s c = spec_nearest_neighbor s c)"
  using distToNearest_spec[OF assms] by (simp add: spec_effective_distance_def)

theorem effective_distance_as_specified_witness:
  "wf_state boundary_state \<and>
   length [Num (Fin (7 / 8)), Num (Fin (1 / 2))] = length (extent boundary_state) \<and>
   repulsiveBoundary boundary_state \<and>
   spec_nearest_neighbor boundary_state [Num (Fin (7 / 8)), Num (Fin (1 / 2))] = Fin (3 / 8) \<and>
   spec_boundary_distance (platform boundary_state) (extent boundary_state)
     [Num (Fin (7 / 8)), Num (Fin (1 / 2))] = Fin (1 / 8) \<and>
   distToNearest boundary_state [Num (Fin (7 / 8)), Num (Fin (1 / 2))] = Inr (Fin (1 / 4))"
proof -
  let ?c = "[Num (Fin (7 / 8)), Num (Fin (1 / 2))]"
  have a: "wf_state boundary_state"
    and b: "length ?c = length (extent boundary_state)"
    and rb: "repulsiveBoundary boundary_state"
    by (simp_all add: wf_state_def array_length_def boundary_state_def)
  have c: "?c \<noteq> []" by simp
  have "[0..<nat 2] = [0, 1]" by (simp add: numeral_2_eq_2)
  then have nn: "spec_nearest_neighbor boundary_state ?c = Fin (3 / 8)"
    by (simp add: spec_nearest_neighbor_def spec_euclidean_def js_hypot_def nth_number_def
        boundary_state_def ranged_arith_simps sqrt_9_64)
  have bd: "spec_boundary_distance (platform boundary_state) (extent boundary_state) ?c
      = Fin (1 / 8)"
    by (simp add: spec_boundary_distance_def spec_edge_distance_def boundary_state_def
        ranged_arith_simps)
  have ar: "platform boundary_state = ranged_arith" by (simp add: boundary_state_def)
  from effective_distance_as_specified[OF a b c] rb
  have "distToNearest boundary_state ?c =
      Inr (min (spec_nearest_neighbor boundary_state ?c)
        (js_mul (platform boundary_state) (Fin 2)
          (spec_boundary_distance (platform boundary_state) (extent boundary_state) ?c)))"
    by simp
  then have "distToNearest boundary_state ?c = Inr (Fin (1 / 4))"
    unfolding nn bd by (simp add: ar ranged_arith_simps)
  with a b rb nn bd show ?thesis by (intro conjI)
qed







text \<open>
  C10. Let \<open>n\<close> be supplied and not zero, \<open>dimensions\<close> be supplied and at least 2, the
  extent be absent or in nested form, and \<open>repulsiveBoundary\<close> be absent or false. Then
  the two constructors build the same object or throw the same exception (they build
  one when the extent is given or \<open>dimensions\<close> is a valid array length), and, on the
  same random sequence, every sequence of \<open>next()\<close> and \<open>fill()\<close> calls returns the same
  values from both variants and leaves the same object (or throws the same exception).
\<close>

theorem variants_agree:
  assumes "opt_n options = Some n0" and "n0 \<noteq> 0"
    and "opt_dimensions options = Some d" and "2 \<le> d"
    and "opt_extent options = None \<or> (\<exists>bs. opt_extent options = Some (Nested bs))"
    and "opt_repulsiveBoundary options = None \<or> opt_repulsiveBoundary options = Some False"
  shows "PoisSimple ar n0 d (opt_extent options) (opt_tries options) r
       = map_sum id to_PS (Poissimple ar options r) \<and>
     (opt_extent options \<noteq> None \<or> array_length d \<longrightarrow>
        (\<exists>s. Poissimple ar options r = Inr s)) \<and>
     (\<forall>s cs. Poissimple ar options r = Inr s \<longrightarrow>
        PS_run cs (to_PS s) = map_sum id (map_prod id to_PS) (run cs s) \<and>
        PS_getAllPoints (to_PS s) = getPoints s)"
proof (intro conjI allI impI)
  show "PoisSimple ar n0 d (opt_extent options) (opt_tries options) r
       = map_sum id to_PS (Poissimple ar options r)"
    using assms by (rule constructors_agree)
  have od: "or_default (Some d) 2 = d" "d \<noteq> 1"
    using assms(4) by (simp_all add: or_default_def)
  show "\<exists>s. Poissimple ar options r = Inr s" if "opt_extent options \<noteq> None \<or> array_length d"
  proof -
    from that assms(5) od(2) have "\<exists>ext. stored_extent d (opt_extent options) = Inr ext"
      by (auto simp: stored_extent_def default_extent_def)
    then show ?thesis by (auto simp: Poissimple_def assms(3) od(1))
  qed
  fix s cs
  assume s: "Poissimple ar options r = Inr s"
  have rb: "(case opt_repulsiveBoundary options of None \<Rightarrow> False | Some b \<Rightarrow> b) = False"
    using assms(6) by auto
  have "\<not> repulsiveBoundary s" unfolding Poissimple_fields(7)[OF s] rb by simp
  then show "PS_run cs (to_PS s) = map_sum id (map_prod id to_PS) (run cs s)"
    by (rule PS_run_to_PS)
  show "PS_getAllPoints (to_PS s) = getPoints s"
    by (simp add: PS_getAllPoints_def getPoints_def)
qed

theorem variants_agree_witness:
  "opt_n square_options = Some 4 \<and> (4::int) \<noteq> 0 \<and>
   opt_dimensions square_options = Some 2 \<and> (2::int) \<le> 2 \<and>
   opt_extent square_options = None \<and>
   opt_repulsiveBoundary square_options = None \<and>
   array_length 2 \<and>
   Poissimple ranged_arith square_options half_rng = Inr square_fresh \<and>
   PoisSimple ranged_arith 4 2 None None half_rng = Inr (to_PS square_fresh) \<and>
   run [Next] square_fresh =
     Inr ([Returned (Some [Num (Fin 0), Num (Fin 0)])],
          square_fresh\<lparr>calls := 2, points := [Some [Num (Fin 0), Num (Fin 0)]]\<rparr>) \<and>
   PS_run [Next] (to_PS square_fresh) =
     Inr ([Returned (Some [Num (Fin 0), Num (Fin 0)])],
          to_PS (square_fresh\<lparr>calls := 2, points := [Some [Num (Fin 0), Num (Fin 0)]]\<rparr>))"
proof -
  have a: "opt_n square_options = Some 4" and b: "(4::int) \<noteq> 0"
    and c: "opt_dimensions square_options = Some 2" and d: "(2::int) \<le> 2"
    and e: "opt_extent square_options = None"
    and g: "opt_repulsiveBoundary square_options = None"
    and t: "opt_tries square_options = None"
    and l: "array_length 2"
    by (simp_all add: square_options_def array_length_def)
  note v = variants_agree[OF a b c d disjI1[OF e] disjI1[OF g], of ranged_arith half_rng]
  from v have v1: "PoisSimple ranged_arith 4 2 None None half_rng = Inr (to_PS square_fresh)"
    by (simp add: e t square_fresh_constructed)
  from v square_fresh_constructed
  have v2: "PS_run [Next] (to_PS square_fresh)
       = map_sum id (map_prod id to_PS) (run [Next] square_fresh)"
    by blast
  have r: "run [Next] square_fresh =
     Inr ([Returned (Some [Num (Fin 0), Num (Fin 0)])],
          square_fresh\<lparr>calls := 2, points := [Some [Num (Fin 0), Num (Fin 0)]]\<rparr>)"
    by (simp add: square_fresh_next)
  have v3: "PS_run [Next] (to_PS square_fresh) =
     Inr ([Returned (Some [Num (Fin 0), Num (Fin 0)])],
          to_PS (square_fresh\<lparr>calls := 2, points := [Some [Num (Fin 0), Num (Fin 0)]]\<rparr>))"
    unfolding v2 r by simp
  from a b c d e g l square_fresh_constructed v1 r v3 show ?thesis by (intro conjI)
qed

end
